theory Spec2Isabelle
  imports Main "HOL-Library.AList" "HOL-Library.Multiset"
begin

section \<open>Data model of \<^verbatim>\<open>mai.cpp\<close>\<close>

text \<open>
  \<^verbatim>\<open>struct FileMetadata\<close>. The identifier is a C++ \<^verbatim>\<open>int\<close> and the size a
  \<^verbatim>\<open>long long\<close>; both are only compared and copied by the code below, except for the
  increment of the identifier counter in \<^verbatim>\<open>addFile\<close>, whose overflow is written out there.
\<close>

record FileMetadata =
  fileId :: int
  fileName :: string
  extension :: string
  fileSize :: int
  owner :: string
  createTime :: string
  fullPath :: string

text \<open>
  \<^verbatim>\<open>class DirectoryNode\<close>. The \<^verbatim>\<open>unordered_map\<close> of children is an association list
  (its iteration order is the list order). Every node is created by one \<^verbatim>\<open>make_shared\<close>
  and stored under one key of one parent, so the nodes reachable from the root form a
  tree and the value below is the whole heap of nodes. The \<^verbatim>\<open>weak_ptr parent\<close> of a node
  is set once, to the node whose \<^verbatim>\<open>children\<close> holds it; it is not a field of the model,
  where the parent of the node at a position is the node one step above that position.
\<close>

datatype DirectoryNode =
  DirectoryNode (name: string) (isDirectory: bool) (fileData: "FileMetadata option")
    (children: "(string \<times> DirectoryNode) list")

subsection \<open>\<^verbatim>\<open>CompressedInvertedList\<close>: a sorted vector of identifiers\<close>

text \<open>
  \<^verbatim>\<open>std::lower_bound(begin, end, x)\<close>: the position of the first element that is not
  less than \<open>x\<close> (the length of the vector stands for \<^verbatim>\<open>end()\<close>).
\<close>

definition lower_bound :: "int list \<Rightarrow> int \<Rightarrow> nat" where
  "lower_bound xs x = length (takeWhile (\<lambda>y. y < x) xs)"

definition addFileId :: "int list \<Rightarrow> int \<Rightarrow> int list" where
  "addFileId sortedFileIds fid =
     (let it = lower_bound sortedFileIds fid in
      if it = length sortedFileIds \<or> sortedFileIds ! it \<noteq> fid
      then take it sortedFileIds @ fid # drop it sortedFileIds
      else sortedFileIds)"

definition removeFileId :: "int list \<Rightarrow> int \<Rightarrow> int list" where
  "removeFileId sortedFileIds fid =
     (let it = lower_bound sortedFileIds fid in
      if it \<noteq> length sortedFileIds \<and> sortedFileIds ! it = fid
      then take it sortedFileIds @ drop (Suc it) sortedFileIds
      else sortedFileIds)"

text \<open>A call of one of the two mutators of a posting list, and a sequence of calls
  on a freshly constructed (empty) list.\<close>

datatype ListOp = InsertId int | EraseId int

fun list_step :: "int list \<Rightarrow> ListOp \<Rightarrow> int list" where
  "list_step xs (InsertId x) = addFileId xs x"
| "list_step xs (EraseId x) = removeFileId xs x"

definition list_run :: "ListOp list \<Rightarrow> int list" where
  "list_run ops = foldl list_step [] ops"

subsection \<open>\<^verbatim>\<open>InvertedIndex\<close>: four maps from an attribute value to a posting list\<close>

text \<open>
  The three \<^verbatim>\<open>unordered_map\<close>s are association lists with distinct keys, written with
  \<open>AList.update\<close> (replace in place, or append a new key) and \<open>AList.delete\<close>. The
  \<^verbatim>\<open>std::map\<close> of the size index is an association list kept in increasing key order,
  which is the order its iterators walk.
\<close>

record InvertedIndex =
  extensionIndex :: "(string \<times> int list) list"
  sizeIndex :: "(int \<times> int list) list"
  ownerIndex :: "(string \<times> int list) list"
  timeIndex :: "(string \<times> int list) list"

text \<open>\<^verbatim>\<open>m[k]\<close> read: the list stored under \<open>k\<close>, or the empty list that
  \<^verbatim>\<open>operator[]\<close> default-constructs for a missing key.\<close>

definition posting_at :: "('k \<times> int list) list \<Rightarrow> 'k \<Rightarrow> int list" where
  "posting_at m k = (case map_of m k of None \<Rightarrow> [] | Some l \<Rightarrow> l)"

text \<open>Storing a value under a key of a \<^verbatim>\<open>std::map\<close>: in place when the key is there,
  at its place in the key order otherwise.\<close>

fun omap_update :: "int \<Rightarrow> 'v \<Rightarrow> (int \<times> 'v) list \<Rightarrow> (int \<times> 'v) list" where
  "omap_update k v [] = [(k, v)]"
| "omap_update k v ((k', v') # m) =
     (if k < k' then (k, v) # (k', v') # m
      else if k = k' then (k, v) # m
      else (k', v') # omap_update k v m)"

text \<open>\<^verbatim>\<open>index[key].addFileId(id)\<close> on an unordered and on the ordered map.\<close>

definition umap_add :: "('k \<times> int list) list \<Rightarrow> 'k \<Rightarrow> int \<Rightarrow> ('k \<times> int list) list" where
  "umap_add m k fid = AList.update k (addFileId (posting_at m k) fid) m"

definition omap_add :: "(int \<times> int list) list \<Rightarrow> int \<Rightarrow> int \<Rightarrow> (int \<times> int list) list" where
  "omap_add m k fid = omap_update k (addFileId (posting_at m k) fid) m"

text \<open>\<^verbatim>\<open>index[key].removeFileId(id); if (index[key].empty()) index.erase(key);\<close>\<close>

definition umap_remove :: "('k \<times> int list) list \<Rightarrow> 'k \<Rightarrow> int \<Rightarrow> ('k \<times> int list) list" where
  "umap_remove m k fid =
     (let l = removeFileId (posting_at m k) fid in
      if l = [] then AList.delete k m else AList.update k l m)"

definition omap_remove :: "(int \<times> int list) list \<Rightarrow> int \<Rightarrow> int \<Rightarrow> (int \<times> int list) list" where
  "omap_remove m k fid =
     (let l = removeFileId (posting_at m k) fid in
      if l = [] then AList.delete k m else omap_update k l m)"

text \<open>\<^verbatim>\<open>InvertedIndex::addFile\<close> and \<^verbatim>\<open>InvertedIndex::removeFile\<close>.\<close>

definition index_addFile :: "InvertedIndex \<Rightarrow> FileMetadata \<Rightarrow> InvertedIndex" where
  "index_addFile idx file =
     \<lparr>extensionIndex = umap_add (extensionIndex idx) (extension file) (fileId file),
      sizeIndex = omap_add (sizeIndex idx) (fileSize file) (fileId file),
      ownerIndex = umap_add (ownerIndex idx) (owner file) (fileId file),
      timeIndex = umap_add (timeIndex idx) (createTime file) (fileId file)\<rparr>"

definition index_removeFile :: "InvertedIndex \<Rightarrow> FileMetadata \<Rightarrow> InvertedIndex" where
  "index_removeFile idx file =
     \<lparr>extensionIndex = umap_remove (extensionIndex idx) (extension file) (fileId file),
      sizeIndex = omap_remove (sizeIndex idx) (fileSize file) (fileId file),
      ownerIndex = umap_remove (ownerIndex idx) (owner file) (fileId file),
      timeIndex = umap_remove (timeIndex idx) (createTime file) (fileId file)\<rparr>"

definition queryByExtension :: "InvertedIndex \<Rightarrow> string \<Rightarrow> int list" where
  "queryByExtension idx ext =
     (case map_of (extensionIndex idx) ext of Some l \<Rightarrow> l | None \<Rightarrow> [])"

definition queryByOwner :: "InvertedIndex \<Rightarrow> string \<Rightarrow> int list" where
  "queryByOwner idx own =
     (case map_of (ownerIndex idx) own of Some l \<Rightarrow> l | None \<Rightarrow> [])"

definition queryByTime :: "InvertedIndex \<Rightarrow> string \<Rightarrow> int list" where
  "queryByTime idx t =
     (case map_of (timeIndex idx) t of Some l \<Rightarrow> l | None \<Rightarrow> [])"

text \<open>
  The two ways the C++ below leaves defined behaviour: dereferencing the \<^verbatim>\<open>end()\<close>
  iterator of the size index, and overflowing the \<^verbatim>\<open>int\<close> identifier counter.
\<close>

datatype Undefined = IteratorPastEnd | SignedOverflow

text \<open>\<^verbatim>\<open>std::map::lower_bound\<close> (first key not less than \<open>k\<close>) and
  \<^verbatim>\<open>std::map::upper_bound\<close> (first key greater than \<open>k\<close>), as positions in the key
  order; the length of the list stands for \<^verbatim>\<open>end()\<close>.\<close>

definition map_lower_bound :: "(int \<times> 'v) list \<Rightarrow> int \<Rightarrow> nat" where
  "map_lower_bound m k = length (takeWhile (\<lambda>e. fst e < k) m)"

definition map_upper_bound :: "(int \<times> 'v) list \<Rightarrow> int \<Rightarrow> nat" where
  "map_upper_bound m k = length (takeWhile (\<lambda>e. fst e \<le> k) m)"

text \<open>The loop \<^verbatim>\<open>for (auto it = lower; it != upper; ++it)\<close> of
  \<^verbatim>\<open>queryBySizeRange\<close>: it stops only when \<open>it\<close> meets \<open>upper\<close>, and reads
  \<^verbatim>\<open>it->second\<close> before that.\<close>

function scan_range ::
  "(int \<times> int list) list \<Rightarrow> nat \<Rightarrow> nat \<Rightarrow> int list \<Rightarrow> Undefined + int list" where
  "scan_range m it upper result =
     (if it = upper then Inr result
      else if length m \<le> it then Inl IteratorPastEnd
      else scan_range m (Suc it) upper (result @ snd (m ! it)))"
  by pat_completeness auto
termination
  by (relation "measure (\<lambda>(m, it, upper, result). length m - it)") auto

declare scan_range.simps [simp del]

definition queryBySizeRange :: "InvertedIndex \<Rightarrow> int \<Rightarrow> int \<Rightarrow> Undefined + int list" where
  "queryBySizeRange idx minSize maxSize =
     (let lower = map_lower_bound (sizeIndex idx) minSize;
          upper = map_upper_bound (sizeIndex idx) maxSize
      in case scan_range (sizeIndex idx) lower upper [] of
           Inl u \<Rightarrow> Inl u
         | Inr result \<Rightarrow> Inr (remdups_adj (sort result)))"

subsection \<open>\<^verbatim>\<open>FileSystemSimulator\<close>\<close>

record FileSystemSimulator =
  root :: DirectoryNode
  fileMetadataMap :: "(int \<times> FileMetadata) list"
  invertedIndex :: InvertedIndex
  nextFileId :: int

text \<open>The constructor: identifiers start at 1 and the root is the directory \<^verbatim>\<open>/\<close>.\<close>

definition new_FileSystemSimulator :: FileSystemSimulator where
  "new_FileSystemSimulator =
     \<lparr>root = DirectoryNode ''/'' True None [],
      fileMetadataMap = [],
      invertedIndex = \<lparr>extensionIndex = [], sizeIndex = [], ownerIndex = [], timeIndex = []\<rparr>,
      nextFileId = 1\<rparr>"

text \<open>The largest value of the \<^verbatim>\<open>int\<close> counter (32 bits on the platforms the
  repository builds for).\<close>

definition INT_MAX :: int where
  "INT_MAX = 2147483647"

text \<open>
  The parts that \<^verbatim>\<open>while (getline(ss, part, '/'))\<close> reads from a stream: \<open>acc\<close> holds
  the characters of the part being read. A part ends at a delimiter (and may be empty);
  at the end of the stream a last part is produced only if a character was read.
\<close>

fun getline_parts :: "string \<Rightarrow> string \<Rightarrow> string list" where
  "getline_parts acc [] = (if acc = [] then [] else [acc])"
| "getline_parts acc (c # cs) =
     (if c = CHR ''/'' then acc # getline_parts [] cs else getline_parts (acc @ [c]) cs)"

text \<open>
  A \<^verbatim>\<open>shared_ptr<DirectoryNode>\<close> into the tree is the list of child keys that leads
  from the root to the node. \<open>node_at\<close> dereferences such a position; \<open>modify_at\<close>
  is a write through it.
\<close>

fun node_at :: "string list \<Rightarrow> DirectoryNode \<Rightarrow> DirectoryNode option" where
  "node_at [] n = Some n"
| "node_at (k # ks) n =
     (case map_of (children n) k of None \<Rightarrow> None | Some c \<Rightarrow> node_at ks c)"

definition set_child :: "string \<Rightarrow> DirectoryNode \<Rightarrow> DirectoryNode \<Rightarrow> DirectoryNode" where
  "set_child k c n =
     DirectoryNode (name n) (isDirectory n) (fileData n) (AList.update k c (children n))"

definition erase_child :: "string \<Rightarrow> DirectoryNode \<Rightarrow> DirectoryNode" where
  "erase_child k n =
     DirectoryNode (name n) (isDirectory n) (fileData n) (AList.delete k (children n))"

fun modify_at ::
  "string list \<Rightarrow> (DirectoryNode \<Rightarrow> DirectoryNode) \<Rightarrow> DirectoryNode \<Rightarrow> DirectoryNode" where
  "modify_at [] f n = f n"
| "modify_at (k # ks) f n =
     (case map_of (children n) k of
        None \<Rightarrow> n
      | Some c \<Rightarrow> set_child k (modify_at ks f c) n)"

text \<open>
  The loop of \<^verbatim>\<open>getOrCreatePath\<close> from the node \<open>current\<close>: empty parts are skipped, a
  missing child is created as a directory, and the walk goes on in the child. The
  result is \<open>current\<close> with the nodes created below it.
\<close>

fun getOrCreatePath_loop :: "string list \<Rightarrow> DirectoryNode \<Rightarrow> DirectoryNode" where
  "getOrCreatePath_loop [] current = current"
| "getOrCreatePath_loop (part # parts) current =
     (if part = [] then getOrCreatePath_loop parts current
      else (case map_of (children current) part of
              None \<Rightarrow>
                set_child part (getOrCreatePath_loop parts (DirectoryNode part True None [])) current
            | Some child \<Rightarrow>
                set_child part (getOrCreatePath_loop parts child) current))"

text \<open>\<^verbatim>\<open>getOrCreatePath\<close>: \<open>None\<close> is \<^verbatim>\<open>nullptr\<close>; otherwise the tree after the
  walk and the position of the node the walk ends in.\<close>

definition getOrCreatePath :: "DirectoryNode \<Rightarrow> string \<Rightarrow> (DirectoryNode \<times> string list) option" where
  "getOrCreatePath rt path =
     (if path = [] \<or> hd path \<noteq> CHR ''/'' then None
      else if path = ''/'' then Some (rt, [])
      else let parts = getline_parts [] (tl path)
           in Some (getOrCreatePath_loop parts rt, filter (\<lambda>part. part \<noteq> []) parts))"

text \<open>The loop of \<^verbatim>\<open>findFileNode\<close>: the same walk, giving up at a missing child.\<close>

fun findFileNode_loop :: "string list \<Rightarrow> DirectoryNode \<Rightarrow> DirectoryNode option" where
  "findFileNode_loop [] current = Some current"
| "findFileNode_loop (part # parts) current =
     (if part = [] then findFileNode_loop parts current
      else (case map_of (children current) part of
              None \<Rightarrow> None
            | Some child \<Rightarrow> findFileNode_loop parts child))"

text \<open>\<^verbatim>\<open>findFileNode\<close>: \<open>None\<close> is \<^verbatim>\<open>nullptr\<close>; otherwise the position of the
  node found and the node.\<close>

definition findFileNode :: "DirectoryNode \<Rightarrow> string \<Rightarrow> (string list \<times> DirectoryNode) option" where
  "findFileNode rt fpath =
     (if fpath = [] \<or> hd fpath \<noteq> CHR ''/'' then None
      else if fpath = ''/'' then Some ([], rt)
      else let parts = getline_parts [] (tl fpath)
           in (case findFileNode_loop parts rt of
                 None \<Rightarrow> None
               | Some node \<Rightarrow> Some (filter (\<lambda>part. part \<noteq> []) parts, node)))"

text \<open>The full path \<^verbatim>\<open>path + (path.back() == '/' ? "" : "/") + fileName\<close>, and the
  record that \<^verbatim>\<open>addFile\<close> builds in the state \<open>s\<close>: its identifier is the value of
  the counter.\<close>

definition join_path :: "string \<Rightarrow> string \<Rightarrow> string" where
  "join_path path fname = path @ (if last path = CHR ''/'' then [] else ''/'') @ fname"

definition new_FileMetadata ::
  "FileSystemSimulator \<Rightarrow> string \<Rightarrow> string \<Rightarrow> string \<Rightarrow> int \<Rightarrow> string \<Rightarrow> string
     \<Rightarrow> FileMetadata" where
  "new_FileMetadata s path fname ext fsize own ctime =
     \<lparr>fileId = nextFileId s, fileName = fname, extension = ext, fileSize = fsize,
      owner = own, createTime = ctime, fullPath = join_path path fname\<rparr>"

text \<open>
  \<^verbatim>\<open>addFile\<close>. \<open>Inr (ok, s')\<close> is a return of \<open>ok\<close> in the state \<open>s'\<close>. The counter
  is read and incremented after the path has been walked; the increment of a counter
  that holds \<open>INT_MAX\<close> is a signed overflow.
\<close>

definition addFile ::
  "FileSystemSimulator \<Rightarrow> string \<Rightarrow> string \<Rightarrow> string \<Rightarrow> int \<Rightarrow> string \<Rightarrow> string
     \<Rightarrow> Undefined + (bool \<times> FileSystemSimulator)" where
  "addFile s path fname ext fsize own ctime =
     (case getOrCreatePath (root s) path of
        None \<Rightarrow> Inr (False, s)
      | Some (root1, pathNode) \<Rightarrow>
          if INT_MAX \<le> nextFileId s then Inl SignedOverflow
          else
            let fdata = new_FileMetadata s path fname ext fsize own ctime;
                fileNode = DirectoryNode fname False (Some fdata) []
            in Inr (True,
                 \<lparr>root = modify_at pathNode (set_child fname fileNode) root1,
                  fileMetadataMap = AList.update (fileId fdata) fdata (fileMetadataMap s),
                  invertedIndex = index_addFile (invertedIndex s) fdata,
                  nextFileId = nextFileId s + 1\<rparr>))"

text \<open>
  \<^verbatim>\<open>if (auto parent = fileNode->parent.lock()) parent->children.erase(fileNode->name)\<close>
  for the node found at the position \<open>pos\<close>: its parent is the node one step above;
  the root has no parent (its \<^verbatim>\<open>weak_ptr\<close> is never set).
\<close>

definition detach :: "string list \<Rightarrow> DirectoryNode \<Rightarrow> DirectoryNode \<Rightarrow> DirectoryNode" where
  "detach pos fileNode rt =
     (if pos = [] then rt else modify_at (butlast pos) (erase_child (name fileNode)) rt)"

text \<open>\<^verbatim>\<open>removeFile\<close>: the result and the state after the call.\<close>

definition removeFile :: "FileSystemSimulator \<Rightarrow> string \<Rightarrow> bool \<times> FileSystemSimulator" where
  "removeFile s fpath =
     (case findFileNode (root s) fpath of
        None \<Rightarrow> (False, s)
      | Some (pos, fileNode) \<Rightarrow>
          if isDirectory fileNode then (False, s)
          else
            let s1 = (case fileData fileNode of
                        None \<Rightarrow> s
                      | Some fdata \<Rightarrow>
                          s\<lparr>invertedIndex := index_removeFile (invertedIndex s) fdata,
                            fileMetadataMap := AList.delete (fileId fdata) (fileMetadataMap s)\<rparr>)
            in (True, s1\<lparr>root := detach pos fileNode (root s1)\<rparr>))"

text \<open>\<^verbatim>\<open>traverseAndFilter\<close>: the callback \<open>visit\<close> is run on the record of every file
  node, parents before children; \<open>acc\<close> is the state the callback writes to.\<close>

fun traverseAndFilter :: "DirectoryNode \<Rightarrow> (FileMetadata \<Rightarrow> 'r \<Rightarrow> 'r) \<Rightarrow> 'r \<Rightarrow> 'r" where
  "traverseAndFilter (DirectoryNode nm isDir fdata chs) visit acc =
     fold (\<lambda>(k, child) acc'. traverseAndFilter child visit acc') chs
       (case fdata of
          None \<Rightarrow> acc
        | Some file \<Rightarrow> if isDir then acc else visit file acc)"

definition queryByExtensionTraditional :: "FileSystemSimulator \<Rightarrow> string \<Rightarrow> FileMetadata list" where
  "queryByExtensionTraditional s ext =
     traverseAndFilter (root s)
       (\<lambda>file result. if extension file = ext then result @ [file] else result) []"

text \<open>The loop shared by the indexed queries: every identifier that the flat table
  holds is replaced by its record, the others are dropped.\<close>

definition lookup_ids :: "(int \<times> FileMetadata) list \<Rightarrow> int list \<Rightarrow> FileMetadata list" where
  "lookup_ids table fileIds = List.map_filter (map_of table) fileIds"

definition queryByExtensionIndexed :: "FileSystemSimulator \<Rightarrow> string \<Rightarrow> FileMetadata list" where
  "queryByExtensionIndexed s ext =
     lookup_ids (fileMetadataMap s) (queryByExtension (invertedIndex s) ext)"

definition queryBySizeRangeIndexed ::
  "FileSystemSimulator \<Rightarrow> int \<Rightarrow> int \<Rightarrow> Undefined + FileMetadata list" where
  "queryBySizeRangeIndexed s minSize maxSize =
     (case queryBySizeRange (invertedIndex s) minSize maxSize of
        Inl u \<Rightarrow> Inl u
      | Inr fileIds \<Rightarrow> Inr (lookup_ids (fileMetadataMap s) fileIds))"

definition queryByOwnerIndexed :: "FileSystemSimulator \<Rightarrow> string \<Rightarrow> FileMetadata list" where
  "queryByOwnerIndexed s own =
     lookup_ids (fileMetadataMap s) (queryByOwner (invertedIndex s) own)"

text \<open>\<^verbatim>\<open>getTotalFiles\<close>: the size of the flat table, which has one entry per key.\<close>

definition getTotalFiles :: "FileSystemSimulator \<Rightarrow> nat" where
  "getTotalFiles s = length (fileMetadataMap s)"

subsection \<open>Sequences of calls\<close>

datatype Op =
  AddFile string string string int string string
| RemoveFile string

fun step :: "FileSystemSimulator \<Rightarrow> Op \<Rightarrow> Undefined + FileSystemSimulator" where
  "step s (AddFile path fname ext fsize own ctime) =
     (case addFile s path fname ext fsize own ctime of
        Inl u \<Rightarrow> Inl u
      | Inr (ok, s') \<Rightarrow> Inr s')"
| "step s (RemoveFile fpath) = Inr (snd (removeFile s fpath))"

fun run :: "FileSystemSimulator \<Rightarrow> Op list \<Rightarrow> Undefined + FileSystemSimulator" where
  "run s [] = Inr s"
| "run s (opn # ops) = (case step s opn of Inl u \<Rightarrow> Inl u | Inr s' \<Rightarrow> run s' ops)"

subsection \<open>Consistency of the three structures\<close>

text \<open>The records of the file nodes of a tree, in the order \<^verbatim>\<open>traverseAndFilter\<close>
  visits them.\<close>

fun tree_files :: "DirectoryNode \<Rightarrow> FileMetadata list" where
  "tree_files (DirectoryNode nm isDir fdata chs) =
     (case fdata of None \<Rightarrow> [] | Some file \<Rightarrow> if isDir then [] else [file])
       @ concat (map (\<lambda>(k, child). tree_files child) chs)"

definition own_files :: "DirectoryNode \<Rightarrow> FileMetadata list" where
  "own_files n =
     (case fileData n of None \<Rightarrow> [] | Some file \<Rightarrow> if isDirectory n then [] else [file])"

definition forest_files :: "(string \<times> DirectoryNode) list \<Rightarrow> FileMetadata list" where
  "forest_files chs = concat (map (\<lambda>(k, child). tree_files child) chs)"

text \<open>Every file node holds a record, every child is stored under its own name, and
  no key occurs twice.\<close>

fun nodes_ok :: "DirectoryNode \<Rightarrow> bool" where
  "nodes_ok (DirectoryNode nm isDir fdata chs) =
     ((isDir \<or> fdata \<noteq> None) \<and> distinct (map fst chs) \<and>
      (\<forall>(k, child) \<in> set chs. name child = k \<and> nodes_ok child))"

text \<open>An index has one entry per key, and every posting list it stores is non-empty
  and strictly increasing; the size index is moreover in key order.\<close>

definition postings_ok :: "('k \<times> int list) list \<Rightarrow> bool" where
  "postings_ok m =
     (distinct (map fst m) \<and>
      (\<forall>k l. map_of m k = Some l \<longrightarrow> l \<noteq> [] \<and> sorted_wrt (<) l))"

definition size_index_ok :: "(int \<times> int list) list \<Rightarrow> bool" where
  "size_index_ok m = (sorted_wrt (<) (map fst m) \<and> postings_ok m)"

text \<open>An identifier is listed under a key exactly when the flat table holds a record
  with that identifier and that attribute value.\<close>

definition index_agrees ::
  "(FileMetadata \<Rightarrow> 'k) \<Rightarrow> (int \<times> FileMetadata) list \<Rightarrow> ('k \<times> int list) list \<Rightarrow> bool" where
  "index_agrees attr table m =
     (\<forall>k i. i \<in> set (posting_at m k) \<longleftrightarrow> (\<exists>r. map_of table i = Some r \<and> attr r = k))"

definition table_ok :: "(int \<times> FileMetadata) list \<Rightarrow> int \<Rightarrow> bool" where
  "table_ok table next =
     (distinct (map fst table) \<and>
      (\<forall>i r. map_of table i = Some r \<longrightarrow> fileId r = i \<and> i < next))"

definition tree_ok :: "DirectoryNode \<Rightarrow> (int \<times> FileMetadata) list \<Rightarrow> bool" where
  "tree_ok rt table =
     (isDirectory rt \<and> nodes_ok rt \<and> distinct (map fileId (tree_files rt)) \<and>
      (\<forall>r \<in> set (tree_files rt). map_of table (fileId r) = Some r))"

definition index_ok :: "InvertedIndex \<Rightarrow> (int \<times> FileMetadata) list \<Rightarrow> bool" where
  "index_ok idx table =
     (postings_ok (extensionIndex idx) \<and> size_index_ok (sizeIndex idx) \<and>
      postings_ok (ownerIndex idx) \<and> postings_ok (timeIndex idx) \<and>
      index_agrees extension table (extensionIndex idx) \<and>
      index_agrees fileSize table (sizeIndex idx) \<and>
      index_agrees owner table (ownerIndex idx) \<and>
      index_agrees createTime table (timeIndex idx))"

definition consistent :: "FileSystemSimulator \<Rightarrow> bool" where
  "consistent s =
     (table_ok (fileMetadataMap s) (nextFileId s) \<and>
      index_ok (invertedIndex s) (fileMetadataMap s) \<and>
      tree_ok (root s) (fileMetadataMap s))"

subsection \<open>Notions of the claims\<close>

text \<open>The identifier \<open>i\<close> is in one posting list of the index \<open>m\<close>, the one stored
  under the key \<open>k\<close>, and occurs there once.\<close>

definition in_exactly_one :: "('k \<times> int list) list \<Rightarrow> 'k \<Rightarrow> int \<Rightarrow> bool" where
  "in_exactly_one m k i =
     (distinct (map fst m) \<and>
      (\<exists>l. (k, l) \<in> set m \<and> i \<in> set l) \<and>
      (\<forall>(k', l) \<in> set m. distinct l \<and> (i \<in> set l \<longrightarrow> k' = k)))"

text \<open>No posting list stored in the index \<open>m\<close> is empty.\<close>

definition no_empty_postings :: "('k \<times> int list) list \<Rightarrow> bool" where
  "no_empty_postings m = (\<forall>(k, l) \<in> set m. l \<noteq> [])"

text \<open>The identifier \<open>i\<close> is in no posting list of the index \<open>m\<close>.\<close>

definition in_no_posting :: "('k \<times> int list) list \<Rightarrow> int \<Rightarrow> bool" where
  "in_no_posting m i = (\<forall>(k, l) \<in> set m. i \<notin> set l)"

text \<open>The identifiers that the successful \<^verbatim>\<open>addFile\<close> calls of a sequence of calls give
  to their records, in the order of the calls. The list ends at the first call whose
  behaviour is undefined, if there is one: \<^term>\<open>run\<close> tells whether there is.\<close>

fun assigned_ids :: "FileSystemSimulator \<Rightarrow> Op list \<Rightarrow> int list" where
  "assigned_ids s [] = []"
| "assigned_ids s (AddFile path fname ext fsize own ctime # ops) =
     (case addFile s path fname ext fsize own ctime of
        Inl u \<Rightarrow> []
      | Inr (ok, s') \<Rightarrow>
          (if ok then [fileId (new_FileMetadata s path fname ext fsize own ctime)] else [])
            @ assigned_ids s' ops)"
| "assigned_ids s (RemoveFile fpath # ops) = assigned_ids (snd (removeFile s fpath)) ops"

text \<open>The calls of \<^verbatim>\<open>addFile\<close> among the calls of a sequence.\<close>

fun is_AddFile :: "Op \<Rightarrow> bool" where
  "is_AddFile (AddFile path fname ext fsize own ctime) = True"
| "is_AddFile (RemoveFile fpath) = False"

text \<open>The records of the flat table whose size lies in the closed interval
  \<open>[lo, hi]\<close>.\<close>

definition records_in_range :: "FileSystemSimulator \<Rightarrow> int \<Rightarrow> int \<Rightarrow> FileMetadata list" where
  "records_in_range s lo hi =
     filter (\<lambda>r. lo \<le> fileSize r \<and> fileSize r \<le> hi) (map snd (fileMetadataMap s))"

text \<open>The position that a path names: its non-empty parts after the leading delimiter.\<close>

definition path_position :: "string \<Rightarrow> string list" where
  "path_position path = filter (\<lambda>part. part \<noteq> []) (getline_parts [] (tl path))"

subsection \<open>Example stores\<close>

text \<open>The example of the specification: two files added to a new store, and the state
  the two calls end in.\<close>

definition demo_ops :: "Op list" where
  "demo_ops =
     [AddFile ''/home/u1'' ''a.jpg'' ''.jpg'' 200000 ''u1'' ''2024-01-15'',
      AddFile ''/home/u1'' ''b.png'' ''.png'' 500000 ''u1'' ''2024-01-16'']"

definition demo_a :: FileMetadata where
  "demo_a = \<lparr>fileId = 1, fileName = ''a.jpg'', extension = ''.jpg'', fileSize = 200000,
             owner = ''u1'', createTime = ''2024-01-15'', fullPath = ''/home/u1/a.jpg''\<rparr>"

definition demo_b :: FileMetadata where
  "demo_b = \<lparr>fileId = 2, fileName = ''b.png'', extension = ''.png'', fileSize = 500000,
             owner = ''u1'', createTime = ''2024-01-16'', fullPath = ''/home/u1/b.png''\<rparr>"

definition demo_store :: FileSystemSimulator where
  "demo_store =
     \<lparr>root = DirectoryNode ''/'' True None
        [(''home'', DirectoryNode ''home'' True None
           [(''u1'', DirectoryNode ''u1'' True None
              [(''a.jpg'', DirectoryNode ''a.jpg'' False (Some demo_a) []),
               (''b.png'', DirectoryNode ''b.png'' False (Some demo_b) [])])])],
      fileMetadataMap = [(1, demo_a), (2, demo_b)],
      invertedIndex =
        \<lparr>extensionIndex = [(''.jpg'', [1]), (''.png'', [2])],
         sizeIndex = [(200000, [1]), (500000, [2])],
         ownerIndex = [(''u1'', [1, 2])],
         timeIndex = [(''2024-01-15'', [1]), (''2024-01-16'', [2])]\<rparr>,
      nextFileId = 3\<rparr>"

text \<open>One file added to a new store, and the store after its removal.\<close>

definition small_a :: FileMetadata where
  "small_a = \<lparr>fileId = 1, fileName = ''a.txt'', extension = ''.txt'', fileSize = 5,
              owner = ''u1'', createTime = ''2024-01-15'', fullPath = ''/docs/a.txt''\<rparr>"

definition small_store :: FileSystemSimulator where
  "small_store =
     \<lparr>root = DirectoryNode ''/'' True None
        [(''docs'', DirectoryNode ''docs'' True None
           [(''a.txt'', DirectoryNode ''a.txt'' False (Some small_a) [])])],
      fileMetadataMap = [(1, small_a)],
      invertedIndex =
        \<lparr>extensionIndex = [(''.txt'', [1])], sizeIndex = [(5, [1])],
         ownerIndex = [(''u1'', [1])], timeIndex = [(''2024-01-15'', [1])]\<rparr>,
      nextFileId = 2\<rparr>"

definition emptied_store :: FileSystemSimulator where
  "emptied_store =
     \<lparr>root = DirectoryNode ''/'' True None [(''docs'', DirectoryNode ''docs'' True None [])],
      fileMetadataMap = [],
      invertedIndex = \<lparr>extensionIndex = [], sizeIndex = [], ownerIndex = [], timeIndex = []\<rparr>,
      nextFileId = 2\<rparr>"

text \<open>The same path and name added twice, and the store the two calls end in.\<close>

definition overwrite_ops :: "Op list" where
  "overwrite_ops =
     [AddFile ''/pics'' ''a.jpg'' ''.jpg'' 100 ''u1'' ''2024-01-15'',
      AddFile ''/pics'' ''a.jpg'' ''.jpg'' 200 ''u1'' ''2024-01-16'']"

definition first_a :: FileMetadata where
  "first_a = \<lparr>fileId = 1, fileName = ''a.jpg'', extension = ''.jpg'', fileSize = 100,
              owner = ''u1'', createTime = ''2024-01-15'', fullPath = ''/pics/a.jpg''\<rparr>"

definition second_a :: FileMetadata where
  "second_a = \<lparr>fileId = 2, fileName = ''a.jpg'', extension = ''.jpg'', fileSize = 200,
               owner = ''u1'', createTime = ''2024-01-16'', fullPath = ''/pics/a.jpg''\<rparr>"

definition first_store :: FileSystemSimulator where
  "first_store =
     \<lparr>root = DirectoryNode ''/'' True None
        [(''pics'', DirectoryNode ''pics'' True None
           [(''a.jpg'', DirectoryNode ''a.jpg'' False (Some first_a) [])])],
      fileMetadataMap = [(1, first_a)],
      invertedIndex =
        \<lparr>extensionIndex = [(''.jpg'', [1])], sizeIndex = [(100, [1])],
         ownerIndex = [(''u1'', [1])], timeIndex = [(''2024-01-15'', [1])]\<rparr>,
      nextFileId = 2\<rparr>"

definition overwrite_store :: FileSystemSimulator where
  "overwrite_store =
     \<lparr>root = DirectoryNode ''/'' True None
        [(''pics'', DirectoryNode ''pics'' True None
           [(''a.jpg'', DirectoryNode ''a.jpg'' False (Some second_a) [])])],
      fileMetadataMap = [(1, first_a), (2, second_a)],
      invertedIndex =
        \<lparr>extensionIndex = [(''.jpg'', [1, 2])], sizeIndex = [(100, [1]), (200, [2])],
         ownerIndex = [(''u1'', [1, 2])],
         timeIndex = [(''2024-01-15'', [1]), (''2024-01-16'', [2])]\<rparr>,
      nextFileId = 3\<rparr>"

text \<open>A file added under a name with a delimiter in it: the full path recorded for it
  does not lead to its node.\<close>

definition nested_name_store :: FileSystemSimulator where
  "nested_name_store =
     \<lparr>root = DirectoryNode ''/'' True None
        [(''docs/a.jpg'',
          DirectoryNode ''docs/a.jpg'' False
            (Some \<lparr>fileId = 1, fileName = ''docs/a.jpg'', extension = ''.jpg'', fileSize = 100,
                    owner = ''u1'', createTime = ''2024-01-15'', fullPath = ''/docs/a.jpg''\<rparr>)
            [])],
      fileMetadataMap =
        [(1, \<lparr>fileId = 1, fileName = ''docs/a.jpg'', extension = ''.jpg'', fileSize = 100,
               owner = ''u1'', createTime = ''2024-01-15'', fullPath = ''/docs/a.jpg''\<rparr>)],
      invertedIndex =
        \<lparr>extensionIndex = [(''.jpg'', [1])], sizeIndex = [(100, [1])],
         ownerIndex = [(''u1'', [1])], timeIndex = [(''2024-01-15'', [1])]\<rparr>,
      nextFileId = 2\<rparr>"

text \<open>A file is added, removed, and added again under the same path and name.\<close>

definition readded_ops :: "Op list" where
  "readded_ops =
     [AddFile ''/docs'' ''a.txt'' ''.txt'' 5 ''u1'' ''2024-01-15'',
      RemoveFile ''/docs/a.txt'',
      AddFile ''/docs'' ''a.txt'' ''.txt'' 5 ''u1'' ''2024-01-15'']"

definition readded_store :: FileSystemSimulator where
  "readded_store =
     \<lparr>root = DirectoryNode ''/'' True None
        [(''docs'', DirectoryNode ''docs'' True None
           [(''a.txt'', DirectoryNode ''a.txt'' False (Some (small_a\<lparr>fileId := 2\<rparr>)) [])])],
      fileMetadataMap = [(2, small_a\<lparr>fileId := 2\<rparr>)],
      invertedIndex =
        \<lparr>extensionIndex = [(''.txt'', [2])], sizeIndex = [(5, [2])],
         ownerIndex = [(''u1'', [2])], timeIndex = [(''2024-01-15'', [2])]\<rparr>,
      nextFileId = 3\<rparr>"

text \<open>A file is added in the root directory and removed again, \<open>2147483646\<close> times over:
  the store holds no file at any moment between two pairs of calls, and \<open>2147483646\<close>
  identifiers have been given at the end, which leaves the counter at \<^verbatim>\<open>INT_MAX\<close>.\<close>

definition add_remove_pair :: "Op list" where
  "add_remove_pair = [AddFile ''/'' ''a'' ''.x'' 1 ''u'' ''t'', RemoveFile ''/a'']"

definition counter_max_ops :: "Op list" where
  "counter_max_ops = concat (replicate 2147483646 add_remove_pair)"

definition counter_max_store :: FileSystemSimulator where
  "counter_max_store = new_FileSystemSimulator\<lparr>nextFileId := INT_MAX\<rparr>"

section \<open>Posting lists\<close>

lemma lower_bound_Nil: "lower_bound [] x = 0"
  by (simp add: lower_bound_def)

lemma lower_bound_Cons:
  "lower_bound (y # ys) x = (if y < x then Suc (lower_bound ys x) else 0)"
  by (simp add: lower_bound_def)

lemma addFileId_Nil: "addFileId [] x = [x]"
  by (simp add: addFileId_def lower_bound_Nil)

lemma addFileId_Cons:
  "addFileId (y # ys) x =
     (if y < x then y # addFileId ys x else if y = x then y # ys else x # y # ys)"
  by (simp add: addFileId_def lower_bound_Cons Let_def)

lemma removeFileId_Nil: "removeFileId [] x = []"
  by (simp add: removeFileId_def lower_bound_Nil)

lemma removeFileId_Cons:
  "removeFileId (y # ys) x =
     (if y < x then y # removeFileId ys x else if y = x then ys else y # ys)"
  by (simp add: removeFileId_def lower_bound_Cons Let_def)

lemmas posting_simps = addFileId_Nil addFileId_Cons removeFileId_Nil removeFileId_Cons

lemma set_addFileId: "set (addFileId xs x) = insert x (set xs)"
  by (induction xs) (auto simp: posting_simps)

lemma sorted_addFileId:
  "sorted_wrt (<) xs \<Longrightarrow> sorted_wrt (<) (addFileId xs x)"
  by (induction xs) (auto simp: posting_simps set_addFileId)

lemma set_removeFileId:
  "sorted_wrt (<) xs \<Longrightarrow> set (removeFileId xs x) = set xs - {x}"
  by (induction xs) (auto simp: posting_simps)

lemma set_removeFileId_subset: "set (removeFileId xs x) \<subseteq> set xs"
  by (induction xs) (auto simp: posting_simps)

lemma sorted_removeFileId:
  "sorted_wrt (<) xs \<Longrightarrow> sorted_wrt (<) (removeFileId xs x)"
proof (induction xs)
  case Nil
  then show ?case by (simp add: posting_simps)
next
  case (Cons y ys)
  have "\<forall>z\<in>set (removeFileId ys x). y < z"
    using Cons.prems set_removeFileId_subset [of ys x] by auto
  with Cons show ?case by (auto simp: posting_simps)
qed

lemma addFileId_present:
  "sorted_wrt (<) xs \<Longrightarrow> x \<in> set xs \<Longrightarrow> addFileId xs x = xs"
  by (induction xs) (auto simp: posting_simps)

lemma removeFileId_absent: "x \<notin> set xs \<Longrightarrow> removeFileId xs x = xs"
  by (induction xs) (auto simp: posting_simps)

lemma sorted_list_step: "sorted_wrt (<) xs \<Longrightarrow> sorted_wrt (<) (list_step xs opn)"
  by (cases opn) (simp_all add: sorted_addFileId sorted_removeFileId)

lemma sorted_foldl_list_step:
  "sorted_wrt (<) xs \<Longrightarrow> sorted_wrt (<) (foldl list_step xs ops)"
  by (induction ops arbitrary: xs) (simp_all add: sorted_list_step)

lemma sorted_list_run: "sorted_wrt (<) (list_run ops)"
  by (simp add: list_run_def sorted_foldl_list_step)

section \<open>The attribute indexes\<close>

lemma map_of_omap_update: "map_of (omap_update k v m) = (map_of m)(k \<mapsto> v)"
  by (induction m) (auto simp: fun_eq_iff)

lemma fst_set_omap_update: "fst ` set (omap_update k v m) = insert k (fst ` set m)"
proof -
  have "dom (map_of (omap_update k v m)) = insert k (dom (map_of m))"
    by (simp add: map_of_omap_update)
  then show ?thesis by (simp add: dom_map_of_conv_image_fst)
qed

lemma sorted_omap_update:
  "sorted_wrt (<) (map fst m) \<Longrightarrow> sorted_wrt (<) (map fst (omap_update k v m))"
proof (induction m)
  case Nil
  then show ?case by simp
next
  case (Cons e m)
  obtain k' v' where e: "e = (k', v')" by (cases e)
  have "\<forall>x \<in> fst ` set (omap_update k v m). k' < x" if "k' < k"
    using Cons.prems that by (auto simp: e fst_set_omap_update)
  with Cons show ?case by (auto simp: e)
qed

lemma sorted_keys_delete:
  "sorted_wrt (<) (map fst m) \<Longrightarrow> sorted_wrt (<) (map fst (AList.delete k m))"
  by (simp add: delete_keys removeAll_filter_not_eq sorted_wrt_filter)

lemma posting_at_umap_add:
  "posting_at (umap_add m k i) k' =
     (if k' = k then addFileId (posting_at m k) i else posting_at m k')"
  by (simp add: umap_add_def posting_at_def update_conv')

lemma posting_at_omap_add:
  "posting_at (omap_add m k i) k' =
     (if k' = k then addFileId (posting_at m k) i else posting_at m k')"
  by (simp add: omap_add_def posting_at_def map_of_omap_update)

lemma posting_at_umap_remove:
  "posting_at (umap_remove m k i) k' =
     (if k' = k then removeFileId (posting_at m k) i else posting_at m k')"
  by (simp add: umap_remove_def posting_at_def update_conv' delete_conv' Let_def)

lemma posting_at_omap_remove:
  "posting_at (omap_remove m k i) k' =
     (if k' = k then removeFileId (posting_at m k) i else posting_at m k')"
  by (simp add: omap_remove_def posting_at_def map_of_omap_update delete_conv' Let_def)

lemma postings_okI:
  "distinct (map fst m) \<Longrightarrow> (\<And>k l. map_of m k = Some l \<Longrightarrow> l \<noteq> [] \<and> sorted_wrt (<) l)
     \<Longrightarrow> postings_ok m"
  unfolding postings_ok_def by blast

lemma postings_okD:
  "postings_ok m \<Longrightarrow> map_of m k = Some l \<Longrightarrow> l \<noteq> [] \<and> sorted_wrt (<) l"
  unfolding postings_ok_def by blast

lemma postings_ok_distinct: "postings_ok m \<Longrightarrow> distinct (map fst m)"
  unfolding postings_ok_def by blast

lemma postings_ok_sorted: "postings_ok m \<Longrightarrow> sorted_wrt (<) (posting_at m k)"
  by (cases "map_of m k") (auto simp: posting_at_def dest: postings_okD)

lemma addFileId_not_Nil: "addFileId xs x \<noteq> []"
  using set_addFileId [of xs x] by auto

lemma postings_ok_store:
  assumes ok: "postings_ok m" and d: "distinct (map fst m')"
    and m': "map_of m' = (map_of m)(k \<mapsto> l)" and l: "l \<noteq> []" "sorted_wrt (<) l"
  shows "postings_ok m'"
proof (rule postings_okI [OF d])
  fix k' l'
  assume "map_of m' k' = Some l'"
  then show "l' \<noteq> [] \<and> sorted_wrt (<) l'"
    using l postings_okD [OF ok, of k' l'] by (cases "k' = k") (simp_all add: m')
qed

lemma postings_ok_erase:
  assumes ok: "postings_ok m" and d: "distinct (map fst m')"
    and m': "map_of m' = (map_of m)(k := None)"
  shows "postings_ok m'"
proof (rule postings_okI [OF d])
  fix k' l'
  assume "map_of m' k' = Some l'"
  then show "l' \<noteq> [] \<and> sorted_wrt (<) l'"
    using postings_okD [OF ok, of k' l'] by (cases "k' = k") (simp_all add: m')
qed

lemma postings_ok_umap_add:
  assumes "postings_ok m"
  shows "postings_ok (umap_add m k i)"
  unfolding umap_add_def
  by (rule postings_ok_store [OF assms _ update_conv'])
     (simp_all add: distinct_update postings_ok_distinct [OF assms] addFileId_not_Nil
        sorted_addFileId postings_ok_sorted [OF assms])

lemma postings_ok_umap_remove:
  assumes "postings_ok m"
  shows "postings_ok (umap_remove m k i)"
proof (cases "removeFileId (posting_at m k) i = []")
  case True
  then have "umap_remove m k i = AList.delete k m" by (simp add: umap_remove_def)
  then show ?thesis
    using postings_ok_erase [OF assms _ delete_conv', of k]
    by (simp add: distinct_delete postings_ok_distinct [OF assms])
next
  case False
  then have "umap_remove m k i = AList.update k (removeFileId (posting_at m k) i) m"
    by (simp add: umap_remove_def)
  then show ?thesis
    using postings_ok_store [OF assms _ update_conv', of k "removeFileId (posting_at m k) i"] False
    by (simp add: distinct_update postings_ok_distinct [OF assms] sorted_removeFileId
        postings_ok_sorted [OF assms])
qed

lemma distinct_keys_if_sorted:
  "sorted_wrt (<) (map fst (m :: (int \<times> 'v) list)) \<Longrightarrow> distinct (map fst m)"
  using strict_sorted_iff by blast

lemma size_index_ok_add:
  assumes "size_index_ok m"
  shows "size_index_ok (omap_add m k i)"
proof -
  have ok: "postings_ok m" and srt: "sorted_wrt (<) (map fst m)"
    using assms by (simp_all add: size_index_ok_def)
  have srt': "sorted_wrt (<) (map fst (omap_add m k i))"
    unfolding omap_add_def by (rule sorted_omap_update [OF srt])
  have "postings_ok (omap_add m k i)"
    unfolding omap_add_def
    by (rule postings_ok_store [OF ok _ map_of_omap_update])
       (simp_all add: distinct_keys_if_sorted sorted_omap_update [OF srt] addFileId_not_Nil
          sorted_addFileId postings_ok_sorted [OF ok])
  with srt' show ?thesis by (simp add: size_index_ok_def)
qed

lemma size_index_ok_remove:
  assumes "size_index_ok m"
  shows "size_index_ok (omap_remove m k i)"
proof -
  have ok: "postings_ok m" and srt: "sorted_wrt (<) (map fst m)"
    using assms by (simp_all add: size_index_ok_def)
  show ?thesis
  proof (cases "removeFileId (posting_at m k) i = []")
    case True
    then have eq: "omap_remove m k i = AList.delete k m" by (simp add: omap_remove_def)
    have "postings_ok (AList.delete k m)"
      using postings_ok_erase [OF ok _ delete_conv', of k]
      by (simp add: distinct_delete postings_ok_distinct [OF ok])
    then show ?thesis by (simp add: eq size_index_ok_def sorted_keys_delete [OF srt])
  next
    case False
    then have eq: "omap_remove m k i = omap_update k (removeFileId (posting_at m k) i) m"
      by (simp add: omap_remove_def)
    have "postings_ok (omap_update k (removeFileId (posting_at m k) i) m)"
      by (rule postings_ok_store [OF ok _ map_of_omap_update])
         (simp_all add: distinct_keys_if_sorted sorted_omap_update [OF srt] False
            sorted_removeFileId postings_ok_sorted [OF ok])
    then show ?thesis by (simp add: eq size_index_ok_def sorted_omap_update [OF srt])
  qed
qed

lemma index_agrees_add:
  assumes ag: "index_agrees attr table m"
    and fresh: "map_of table fid = None"
    and m': "\<And>k'. posting_at m' k' =
               (if k' = attr fdata then addFileId (posting_at m (attr fdata)) fid
                else posting_at m k')"
  shows "index_agrees attr (AList.update fid fdata table) m'"
  unfolding index_agrees_def
proof (intro allI)
  fix k i
  have old: "i \<in> set (posting_at m k) \<longleftrightarrow> (\<exists>r. map_of table i = Some r \<and> attr r = k)"
    using ag by (simp add: index_agrees_def)
  show "i \<in> set (posting_at m' k) \<longleftrightarrow>
        (\<exists>r. map_of (AList.update fid fdata table) i = Some r \<and> attr r = k)"
  proof (cases "i = fid")
    case True
    have "fid \<notin> set (posting_at m k)" using ag fresh by (simp add: index_agrees_def)
    then show ?thesis using True by (auto simp: m' update_conv' set_addFileId)
  next
    case False
    then show ?thesis using old ag
      by (auto simp: m' update_conv' set_addFileId index_agrees_def)
  qed
qed

lemma index_agrees_remove:
  assumes ag: "index_agrees attr table m"
    and srt: "sorted_wrt (<) (posting_at m (attr fdata))"
    and known: "map_of table (fileId fdata) = Some fdata"
    and m': "\<And>k'. posting_at m' k' =
               (if k' = attr fdata then removeFileId (posting_at m (attr fdata)) (fileId fdata)
                else posting_at m k')"
  shows "index_agrees attr (AList.delete (fileId fdata) table) m'"
  unfolding index_agrees_def
proof (intro allI)
  fix k i
  have old: "i \<in> set (posting_at m k) \<longleftrightarrow> (\<exists>r. map_of table i = Some r \<and> attr r = k)"
    using ag by (simp add: index_agrees_def)
  show "i \<in> set (posting_at m' k) \<longleftrightarrow>
        (\<exists>r. map_of (AList.delete (fileId fdata) table) i = Some r \<and> attr r = k)"
  proof (cases "i = fileId fdata")
    case True
    then show ?thesis using old known srt
      by (auto simp: m' delete_conv' set_removeFileId)
  next
    case False
    then show ?thesis using old ag srt
      by (auto simp: m' delete_conv' set_removeFileId index_agrees_def)
  qed
qed

lemma size_index_ok_postings: "size_index_ok m \<Longrightarrow> postings_ok m"
  by (simp add: size_index_ok_def)

lemma index_ok_addFile:
  assumes "index_ok idx table" "map_of table (fileId fdata) = None"
  shows "index_ok (index_addFile idx fdata) (AList.update (fileId fdata) fdata table)"
  using assms unfolding index_ok_def index_addFile_def
  by (auto intro!: postings_ok_umap_add size_index_ok_add index_agrees_add
      simp: posting_at_umap_add posting_at_omap_add)

lemma index_ok_removeFile:
  assumes "index_ok idx table" "map_of table (fileId fdata) = Some fdata"
  shows "index_ok (index_removeFile idx fdata) (AList.delete (fileId fdata) table)"
  using assms unfolding index_ok_def index_removeFile_def
  by (auto intro!: postings_ok_umap_remove size_index_ok_remove index_agrees_remove
      postings_ok_sorted size_index_ok_postings
      simp: posting_at_umap_remove posting_at_omap_remove)

section \<open>The flat table\<close>

lemma table_okD:
  "table_ok table next \<Longrightarrow> map_of table i = Some r \<Longrightarrow> fileId r = i \<and> i < next"
  unfolding table_ok_def by blast

lemma table_ok_distinct: "table_ok table next \<Longrightarrow> distinct (map fst table)"
  unfolding table_ok_def by blast

lemma table_okI:
  "distinct (map fst table) \<Longrightarrow>
     (\<And>i r. map_of table i = Some r \<Longrightarrow> fileId r = i \<and> i < next) \<Longrightarrow> table_ok table next"
  unfolding table_ok_def by blast

lemma table_ok_update:
  assumes ok: "table_ok table next" and fid: "fileId fdata = next"
  shows "table_ok (AList.update next fdata table) (next + 1)"
proof (rule table_okI)
  show "distinct (map fst (AList.update next fdata table))"
    by (simp add: distinct_update table_ok_distinct [OF ok])
next
  fix i r
  assume "map_of (AList.update next fdata table) i = Some r"
  then show "fileId r = i \<and> i < next + 1"
    using fid table_okD [OF ok, of i r] by (cases "i = next") (simp_all add: update_conv')
qed

lemma table_ok_delete:
  assumes ok: "table_ok table next"
  shows "table_ok (AList.delete j table) next"
proof (rule table_okI)
  show "distinct (map fst (AList.delete j table))"
    by (simp add: distinct_delete table_ok_distinct [OF ok])
next
  fix i r
  assume "map_of (AList.delete j table) i = Some r"
  then show "fileId r = i \<and> i < next"
    using table_okD [OF ok, of i r] by (cases "i = j") (simp_all add: delete_conv')
qed

lemma table_ok_fresh: "table_ok table next \<Longrightarrow> map_of table next = None"
  using table_okD [of table "next" "next"] by (cases "map_of table next") auto

section \<open>The namespace tree\<close>

lemma tree_files_unfold: "tree_files n = own_files n @ forest_files (children n)"
  by (cases n) (simp add: own_files_def forest_files_def split: option.splits)

lemma forest_files_simps:
  "forest_files [] = []"
  "forest_files ((k, c) # chs) = tree_files c @ forest_files chs"
  by (simp_all add: forest_files_def)

lemma forest_files_update_new:
  "map_of chs k = None \<Longrightarrow> forest_files (AList.update k c chs) = forest_files chs @ tree_files c"
  by (induction chs) (auto simp: forest_files_simps split: if_splits)

lemma forest_files_update_old:
  "map_of chs k = Some old \<Longrightarrow>
     mset (forest_files (AList.update k c chs)) + mset (tree_files old) =
     mset (forest_files chs) + mset (tree_files c)"
  by (induction chs) (auto simp: forest_files_simps split: if_splits)

lemma forest_files_delete_subset:
  "mset (forest_files (AList.delete k chs)) \<subseteq># mset (forest_files chs)"
proof (induction chs)
  case Nil
  then show ?case by simp
next
  case (Cons e chs)
  obtain k' c' where e: "e = (k', c')" by (cases e)
  have "mset (forest_files chs) \<subseteq># mset (tree_files c') + mset (forest_files chs)"
    by simp
  with Cons show ?case
    by (auto simp: e forest_files_simps intro: subset_mset.order_trans)
qed

lemma forest_files_delete:
  "map_of chs k = Some old \<Longrightarrow>
     mset (forest_files (AList.delete k chs)) + mset (tree_files old) \<subseteq># mset (forest_files chs)"
proof (induction chs)
  case Nil
  then show ?case by simp
next
  case (Cons e chs)
  obtain k' c' where e: "e = (k', c')" by (cases e)
  show ?case
  proof (cases "k' = k")
    case True
    with Cons.prems forest_files_delete_subset [of k chs] show ?thesis
      by (simp add: e forest_files_simps)
  next
    case False
    with Cons show ?thesis by (auto simp: e forest_files_simps)
  qed
qed

lemma children_set_child [simp]: "children (set_child k c n) = AList.update k c (children n)"
  and name_set_child [simp]: "name (set_child k c n) = name n"
  and isDirectory_set_child [simp]: "isDirectory (set_child k c n) = isDirectory n"
  and fileData_set_child [simp]: "fileData (set_child k c n) = fileData n"
  by (simp_all add: set_child_def)

lemma children_erase_child [simp]: "children (erase_child k n) = AList.delete k (children n)"
  and name_erase_child [simp]: "name (erase_child k n) = name n"
  and isDirectory_erase_child [simp]: "isDirectory (erase_child k n) = isDirectory n"
  and fileData_erase_child [simp]: "fileData (erase_child k n) = fileData n"
  by (simp_all add: erase_child_def)

lemma own_files_set_child [simp]: "own_files (set_child k c n) = own_files n"
  and own_files_erase_child [simp]: "own_files (erase_child k n) = own_files n"
  by (simp_all add: own_files_def split: option.splits)

lemma tree_files_set_child_new:
  "map_of (children n) k = None \<Longrightarrow>
     tree_files (set_child k c n) = tree_files n @ tree_files c"
  by (simp add: tree_files_unfold [of "set_child k c n"] tree_files_unfold [of n]
      forest_files_update_new)

lemma tree_files_set_child_old:
  "map_of (children n) k = Some old \<Longrightarrow>
     mset (tree_files (set_child k c n)) + mset (tree_files old) =
     mset (tree_files n) + mset (tree_files c)"
  using forest_files_update_old [of "children n" k old c]
  by (simp add: tree_files_unfold [of "set_child k c n"] tree_files_unfold [of n])

lemma tree_files_erase_child:
  "map_of (children n) k = Some old \<Longrightarrow>
     mset (tree_files (erase_child k n)) + mset (tree_files old) \<subseteq># mset (tree_files n)"
  using forest_files_delete [of "children n" k old]
  by (simp add: tree_files_unfold [of "erase_child k n"] tree_files_unfold [of n])

lemma tree_files_modify_at:
  "node_at pos t = Some n \<Longrightarrow>
     mset (tree_files (modify_at pos f t)) + mset (tree_files n) =
     mset (tree_files t) + mset (tree_files (f n))"
proof (induction pos arbitrary: t)
  case Nil
  then show ?case by simp
next
  case (Cons k ks)
  then obtain c where c: "map_of (children t) k = Some c" and n: "node_at ks c = Some n"
    by (auto split: option.splits)
  have "mset (tree_files (set_child k (modify_at ks f c) t)) + mset (tree_files c) =
        mset (tree_files t) + mset (tree_files (modify_at ks f c))"
    by (rule tree_files_set_child_old [OF c])
  moreover have "mset (tree_files (modify_at ks f c)) + mset (tree_files n) =
        mset (tree_files c) + mset (tree_files (f n))"
    by (rule Cons.IH [OF n])
  ultimately have "mset (tree_files (set_child k (modify_at ks f c) t)) + mset (tree_files c)
        + mset (tree_files n) =
        mset (tree_files t) + mset (tree_files c) + mset (tree_files (f n))"
    by (simp add: ac_simps)
  then show ?case by (simp add: c)
qed

lemma findFileNode_loop_node_at:
  "findFileNode_loop parts t = node_at (filter (\<lambda>part. part \<noteq> []) parts) t"
  by (induction parts arbitrary: t) (auto split: option.splits)

lemma tree_files_getOrCreatePath_loop:
  "mset (tree_files (getOrCreatePath_loop parts t)) = mset (tree_files t)"
proof (induction parts arbitrary: t)
  case Nil
  then show ?case by simp
next
  case (Cons part parts)
  show ?case
  proof (cases "part = []")
    case True
    then show ?thesis by (simp add: Cons.IH)
  next
    case False
    show ?thesis
    proof (cases "map_of (children t) part")
      case None
      then show ?thesis
        using False Cons.IH [of "DirectoryNode part True None []"]
        by (simp add: tree_files_set_child_new)
    next
      case (Some child)
      then show ?thesis
        using False Cons.IH [of child] tree_files_set_child_old [OF Some, of "getOrCreatePath_loop parts child"]
        by simp
    qed
  qed
qed

lemma node_at_getOrCreatePath_loop:
  "\<exists>n. node_at (filter (\<lambda>part. part \<noteq> []) parts) (getOrCreatePath_loop parts t) = Some n"
proof (induction parts arbitrary: t)
  case Nil
  then show ?case by simp
next
  case (Cons part parts)
  show ?case
    by (cases "part = []"; cases "map_of (children t) part")
       (simp_all add: Cons.IH update_conv')
qed

lemma nodes_ok_iff:
  "nodes_ok n \<longleftrightarrow>
     (isDirectory n \<or> fileData n \<noteq> None) \<and> distinct (map fst (children n)) \<and>
     (\<forall>k c. map_of (children n) k = Some c \<longrightarrow> name c = k \<and> nodes_ok c)"
  by (cases n) auto

lemma nodes_ok_child:
  "nodes_ok n \<Longrightarrow> map_of (children n) k = Some c \<Longrightarrow> name c = k \<and> nodes_ok c"
  using nodes_ok_iff [of n] by blast

lemma nodes_ok_set_child:
  assumes "nodes_ok n" "nodes_ok c" "name c = k"
  shows "nodes_ok (set_child k c n)"
  using assms nodes_ok_iff [of n] nodes_ok_iff [of "set_child k c n"]
  by (simp add: distinct_update update_conv')

lemma nodes_ok_erase_child: "nodes_ok n \<Longrightarrow> nodes_ok (erase_child k n)"
  using nodes_ok_iff [of n] nodes_ok_iff [of "erase_child k n"]
  by (simp add: distinct_delete delete_conv')

lemma name_modify_at:
  "(\<And>n. name (f n) = name n) \<Longrightarrow> name (modify_at pos f t) = name t"
  by (cases pos) (simp_all split: option.splits)

lemma isDirectory_modify_at:
  "(\<And>n. isDirectory (f n) = isDirectory n) \<Longrightarrow> isDirectory (modify_at pos f t) = isDirectory t"
  by (cases pos) (simp_all split: option.splits)

lemma nodes_ok_modify_at:
  assumes f: "\<And>n. nodes_ok n \<Longrightarrow> nodes_ok (f n)" and nm: "\<And>n. name (f n) = name n"
  shows "nodes_ok t \<Longrightarrow> nodes_ok (modify_at pos f t)"
proof (induction pos arbitrary: t)
  case Nil
  then show ?case by (simp add: f)
next
  case (Cons k ks)
  show ?case
  proof (cases "map_of (children t) k")
    case None
    then show ?thesis using Cons.prems by simp
  next
    case (Some c)
    have c: "name c = k" "nodes_ok c" using nodes_ok_child [OF Cons.prems Some] by simp_all
    have "nodes_ok (modify_at ks f c)" by (rule Cons.IH [OF c(2)])
    moreover have "name (modify_at ks f c) = k" using c(1) by (simp add: name_modify_at nm)
    ultimately show ?thesis using Some Cons.prems by (simp add: nodes_ok_set_child)
  qed
qed

lemma name_getOrCreatePath_loop: "name (getOrCreatePath_loop parts t) = name t"
  by (induction parts arbitrary: t) (simp_all split: option.splits)

lemma isDirectory_getOrCreatePath_loop:
  "isDirectory (getOrCreatePath_loop parts t) = isDirectory t"
  by (induction parts arbitrary: t) (simp_all split: option.splits)

lemma nodes_ok_getOrCreatePath_loop:
  "nodes_ok t \<Longrightarrow> nodes_ok (getOrCreatePath_loop parts t)"
proof (induction parts arbitrary: t)
  case Nil
  then show ?case by simp
next
  case (Cons part parts)
  show ?case
  proof (cases "part = []")
    case True
    then show ?thesis using Cons by simp
  next
    case False
    show ?thesis
    proof (cases "map_of (children t) part")
      case None
      have "nodes_ok (getOrCreatePath_loop parts (DirectoryNode part True None []))"
        by (rule Cons.IH) simp
      then show ?thesis using None False Cons.prems
        by (simp add: nodes_ok_set_child name_getOrCreatePath_loop)
    next
      case (Some child)
      have c: "name child = part" "nodes_ok child"
        using nodes_ok_child [OF Cons.prems Some] by simp_all
      have "nodes_ok (getOrCreatePath_loop parts child)" by (rule Cons.IH [OF c(2)])
      then show ?thesis using Some False Cons.prems c
        by (simp add: nodes_ok_set_child name_getOrCreatePath_loop)
    qed
  qed
qed

lemma node_at_append:
  "node_at (p @ q) t = (case node_at p t of None \<Rightarrow> None | Some n \<Rightarrow> node_at q n)"
  by (induction p arbitrary: t) (simp_all split: option.splits)

lemma node_at_modify_at:
  "node_at p t = Some n \<Longrightarrow> node_at p (modify_at p f t) = Some (f n)"
  by (induction p arbitrary: t) (auto simp: update_conv' split: option.splits)

lemma nodes_ok_node_at: "nodes_ok t \<Longrightarrow> node_at p t = Some n \<Longrightarrow> nodes_ok n"
  by (induction p arbitrary: t) (auto split: option.splits dest: nodes_ok_child)

lemma node_at_snoc:
  "node_at (p @ [k]) t = Some n \<longleftrightarrow>
     (\<exists>parent. node_at p t = Some parent \<and> map_of (children parent) k = Some n)"
  by (auto simp: node_at_append split: option.splits)

lemma distinct_map_mset_subset:
  assumes "mset ys \<subseteq># mset zs" "distinct (map f zs)"
  shows "distinct (map f ys)"
proof -
  have "image_mset f (mset ys) \<subseteq># image_mset f (mset zs)"
    by (rule image_mset_subseteq_mono [OF assms(1)])
  then have "mset (map f ys) \<subseteq># mset (map f zs)" by simp
  then have "count (mset (map f ys)) a \<le> count (mset (map f zs)) a" for a
    by (rule mset_subset_eq_count)
  moreover have "count (mset (map f zs)) a \<le> 1" for a
    using assms(2) distinct_count_atmost_1 [of "map f zs"] by (auto split: if_splits)
  ultimately have "count (mset (map f ys)) a \<le> 1" for a
    using order_trans by blast
  then show ?thesis
    unfolding distinct_count_atmost_1 [of "map f ys"]
    by (metis count_mset_0_iff  le_less less_one)
qed

lemma disjoint_ids_mset_subset:
  assumes sub: "mset xs + mset ys \<subseteq># mset zs" and d: "distinct (map f zs)"
    and x: "x \<in> set xs" and y: "y \<in> set ys"
  shows "f x \<noteq> f y"
proof -
  have "mset (xs @ ys) \<subseteq># mset zs" using sub by simp
  then have "distinct (map f (xs @ ys))" by (rule distinct_map_mset_subset [OF _ d])
  then show ?thesis using x y by auto
qed

lemma tree_files_node_at:
  "node_at pos t = Some n \<Longrightarrow> mset (tree_files n) \<subseteq># mset (tree_files t)"
proof (induction pos arbitrary: t)
  case Nil
  then show ?case by simp
next
  case (Cons k ks)
  then obtain c where c: "map_of (children t) k = Some c" and n: "node_at ks c = Some n"
    by (auto split: option.splits)
  show ?case
  proof (rule mset_subset_eqI)
    fix a
    have "count (mset (tree_files n)) a \<le> count (mset (tree_files c)) a"
      by (rule mset_subset_eq_count [OF Cons.IH [OF n]])
    moreover have "count (mset (tree_files (erase_child k t)) + mset (tree_files c)) a
        \<le> count (mset (tree_files t)) a"
      by (rule mset_subset_eq_count [OF tree_files_erase_child [OF c]])
    ultimately show "count (mset (tree_files n)) a \<le> count (mset (tree_files t)) a"
      by simp
  qed
qed

lemma tree_files_set_child_bounds:
  "mset (tree_files (set_child k c n)) \<subseteq># mset (tree_files n) + mset (tree_files c)"
  "mset (tree_files c) \<subseteq># mset (tree_files (set_child k c n))"
  "mset (tree_files n) \<subseteq># mset (tree_files (set_child k c n)) +
      (case map_of (children n) k of None \<Rightarrow> {#} | Some old \<Rightarrow> mset (tree_files old))"
proof -
  have "mset (tree_files (set_child k c n)) \<subseteq># mset (tree_files n) + mset (tree_files c) \<and>
        mset (tree_files c) \<subseteq># mset (tree_files (set_child k c n)) \<and>
        mset (tree_files n) \<subseteq># mset (tree_files (set_child k c n)) +
          (case map_of (children n) k of None \<Rightarrow> {#} | Some old \<Rightarrow> mset (tree_files old))"
  proof (cases "map_of (children n) k")
    case None
    then show ?thesis by (simp add: tree_files_set_child_new)
  next
    case (Some old)
    have e: "count (mset (tree_files (set_child k c n))) a + count (mset (tree_files old)) a =
             count (mset (tree_files n)) a + count (mset (tree_files c)) a" for a
      using arg_cong [OF tree_files_set_child_old [OF Some, of c], of "\<lambda>m. count m a"] by simp
    have o: "count (mset (tree_files old)) a \<le> count (mset (tree_files n)) a" for a
      using mset_subset_eq_count [OF tree_files_node_at [of "[k]" n old], of a] Some by simp
    show ?thesis
    proof (intro conjI mset_subset_eqI)
      fix a
      show "count (mset (tree_files (set_child k c n))) a
              \<le> count (mset (tree_files n) + mset (tree_files c)) a"
        using e [of a] by simp
      show "count (mset (tree_files c)) a \<le> count (mset (tree_files (set_child k c n))) a"
        using e [of a] o [of a] by simp
      show "count (mset (tree_files n)) a \<le> count (mset (tree_files (set_child k c n)) +
          (case map_of (children n) k of None \<Rightarrow> {#} | Some old \<Rightarrow> mset (tree_files old))) a"
        using e [of a] by (simp add: Some)
    qed
  qed
  then show
    "mset (tree_files (set_child k c n)) \<subseteq># mset (tree_files n) + mset (tree_files c)"
    "mset (tree_files c) \<subseteq># mset (tree_files (set_child k c n))"
    "mset (tree_files n) \<subseteq># mset (tree_files (set_child k c n)) +
      (case map_of (children n) k of None \<Rightarrow> {#} | Some old \<Rightarrow> mset (tree_files old))"
    by simp_all
qed

lemma tree_files_attach:
  assumes n: "node_at pos t = Some n"
  shows "mset (tree_files (modify_at pos (set_child k c) t)) \<subseteq>#
           mset (tree_files t) + mset (tree_files c)"
    and "mset (tree_files c) \<subseteq># mset (tree_files (modify_at pos (set_child k c) t))"
proof -
  have eq: "count (mset (tree_files (modify_at pos (set_child k c) t))) a
              + count (mset (tree_files n)) a =
            count (mset (tree_files t)) a + count (mset (tree_files (set_child k c n))) a" for a
    using arg_cong [OF tree_files_modify_at [OF n, of "set_child k c"], of "\<lambda>m. count m a"]
    by simp
  have sub: "count (mset (tree_files (set_child k c n))) a
               \<le> count (mset (tree_files n)) a + count (mset (tree_files c)) a" for a
    using mset_subset_eq_count [OF tree_files_set_child_bounds(1) [of k c n], of a] by simp
  have sup: "count (mset (tree_files c)) a \<le> count (mset (tree_files (set_child k c n))) a" for a
    by (rule mset_subset_eq_count [OF tree_files_set_child_bounds(2)])
  have nt: "count (mset (tree_files n)) a \<le> count (mset (tree_files t)) a" for a
    by (rule mset_subset_eq_count [OF tree_files_node_at [OF n]])
  show "mset (tree_files (modify_at pos (set_child k c) t)) \<subseteq>#
           mset (tree_files t) + mset (tree_files c)"
  proof (rule mset_subset_eqI)
    fix a
    show "count (mset (tree_files (modify_at pos (set_child k c) t))) a
            \<le> count (mset (tree_files t) + mset (tree_files c)) a"
      using eq [of a] sub [of a] by simp
  qed
  show "mset (tree_files c) \<subseteq># mset (tree_files (modify_at pos (set_child k c) t))"
  proof (rule mset_subset_eqI)
    fix a
    show "count (mset (tree_files c)) a
            \<le> count (mset (tree_files (modify_at pos (set_child k c) t))) a"
      using eq [of a] sup [of a] nt [of a] by simp
  qed
qed

lemma tree_files_detach:
  assumes parent: "node_at p t = Some parent" and child: "map_of (children parent) k = Some c"
  shows "mset (tree_files (modify_at p (erase_child k) t)) + mset (tree_files c) \<subseteq>#
           mset (tree_files t)"
proof (rule mset_subset_eqI)
  fix a
  have eq: "count (mset (tree_files (modify_at p (erase_child k) t))) a
              + count (mset (tree_files parent)) a =
            count (mset (tree_files t)) a + count (mset (tree_files (erase_child k parent))) a"
    using arg_cong [OF tree_files_modify_at [OF parent, of "erase_child k"], of "\<lambda>m. count m a"]
    by simp
  have sub: "count (mset (tree_files (erase_child k parent))) a + count (mset (tree_files c)) a
               \<le> count (mset (tree_files parent)) a"
    using mset_subset_eq_count [OF tree_files_erase_child [OF child], of a] by simp
  show "count (mset (tree_files (modify_at p (erase_child k) t)) + mset (tree_files c)) a
          \<le> count (mset (tree_files t)) a"
    using eq sub by simp
qed

section \<open>The store\<close>

lemma getOrCreatePath_props:
  assumes "getOrCreatePath rt path = Some (root1, pos)"
  shows "mset (tree_files root1) = mset (tree_files rt)"
    and "\<exists>n. node_at pos root1 = Some n"
    and "nodes_ok rt \<Longrightarrow> nodes_ok root1"
    and "isDirectory root1 = isDirectory rt"
  using assms
  by (auto simp: getOrCreatePath_def Let_def tree_files_getOrCreatePath_loop
      node_at_getOrCreatePath_loop nodes_ok_getOrCreatePath_loop
      isDirectory_getOrCreatePath_loop split: if_splits)

lemma addFile_False:
  "addFile s path fname ext fsize own ctime = Inr (False, s') \<longleftrightarrow>
     getOrCreatePath (root s) path = None \<and> s' = s"
  by (auto simp: addFile_def Let_def split: option.splits)

lemma addFile_True:
  "addFile s path fname ext fsize own ctime = Inr (True, s') \<longleftrightarrow>
     (\<exists>root1 pos. getOrCreatePath (root s) path = Some (root1, pos) \<and> nextFileId s < INT_MAX \<and>
        s' = \<lparr>root = modify_at pos
                       (set_child fname
                          (DirectoryNode fname False
                             (Some (new_FileMetadata s path fname ext fsize own ctime)) []))
                       root1,
              fileMetadataMap =
                AList.update (nextFileId s) (new_FileMetadata s path fname ext fsize own ctime)
                  (fileMetadataMap s),
              invertedIndex =
                index_addFile (invertedIndex s) (new_FileMetadata s path fname ext fsize own ctime),
              nextFileId = nextFileId s + 1\<rparr>)"
  by (auto simp: addFile_def Let_def new_FileMetadata_def split: option.splits)

lemma fileId_new_FileMetadata [simp]:
  "fileId (new_FileMetadata s path fname ext fsize own ctime) = nextFileId s"
  by (simp add: new_FileMetadata_def)

lemma tree_files_leaf [simp]: "tree_files (DirectoryNode k False (Some r) []) = [r]"
  by simp

lemma consistent_addFile:
  assumes c: "consistent s" and a: "addFile s path fname ext fsize own ctime = Inr (ok, s')"
  shows "consistent s'"
proof (cases ok)
  case False
  then show ?thesis using a c by (simp add: addFile_False)
next
  case True
  let ?r = "new_FileMetadata s path fname ext fsize own ctime"
  let ?leaf = "DirectoryNode fname False (Some ?r) []"
  from a True obtain root1 pos where
    g: "getOrCreatePath (root s) path = Some (root1, pos)" and
    s': "s' = \<lparr>root = modify_at pos (set_child fname ?leaf) root1,
              fileMetadataMap = AList.update (nextFileId s) ?r (fileMetadataMap s),
              invertedIndex = index_addFile (invertedIndex s) ?r,
              nextFileId = nextFileId s + 1\<rparr>"
    by (auto simp: addFile_True)
  have tab: "table_ok (fileMetadataMap s) (nextFileId s)"
    and idx: "index_ok (invertedIndex s) (fileMetadataMap s)"
    and tr: "tree_ok (root s) (fileMetadataMap s)"
    using c by (simp_all add: consistent_def)
  have fresh: "map_of (fileMetadataMap s) (nextFileId s) = None"
    by (rule table_ok_fresh [OF tab])
  have tab': "table_ok (fileMetadataMap s') (nextFileId s')"
    using table_ok_update [OF tab, of ?r] by (simp add: s')
  have idx': "index_ok (invertedIndex s') (fileMetadataMap s')"
    using index_ok_addFile [OF idx, of ?r] fresh by (simp add: s')
  obtain n where n: "node_at pos root1 = Some n"
    using getOrCreatePath_props(2) [OF g] by blast
  have sub: "mset (tree_files (root s')) \<subseteq># mset (?r # tree_files (root s))"
    using tree_files_attach(1) [OF n, of fname ?leaf] getOrCreatePath_props(1) [OF g]
    by (simp add: s')
  have old: "map_of (fileMetadataMap s) (fileId r) = Some r \<and> fileId r < nextFileId s"
    if "r \<in> set (tree_files (root s))" for r
    using tr that table_okD [OF tab, of "fileId r" r] by (simp add: tree_ok_def)
  have "nextFileId s \<notin> fileId ` set (tree_files (root s))"
    using old by force
  then have d: "distinct (map fileId (?r # tree_files (root s)))"
    using tr by (simp add: tree_ok_def)
  have "isDirectory (root s')"
    using tr getOrCreatePath_props(4) [OF g] by (simp add: s' tree_ok_def isDirectory_modify_at)
  moreover have "nodes_ok (root s')"
    using tr getOrCreatePath_props(3) [OF g]
    by (simp add: s' tree_ok_def nodes_ok_modify_at nodes_ok_set_child)
  moreover have "distinct (map fileId (tree_files (root s')))"
    by (rule distinct_map_mset_subset [OF sub d])
  moreover have "map_of (fileMetadataMap s') (fileId r) = Some r"
    if "r \<in> set (tree_files (root s'))" for r
  proof -
    have "r \<in> set (?r # tree_files (root s))"
      using that mset_subset_eqD [OF sub, of r] by simp
    then show ?thesis using old [of r] by (auto simp: s' update_conv')
  qed
  ultimately have "tree_ok (root s') (fileMetadataMap s')" by (simp add: tree_ok_def)
  with tab' idx' show ?thesis by (simp add: consistent_def)
qed

lemma findFileNode_node_at:
  "findFileNode rt fpath = Some (pos, node) \<Longrightarrow> node_at pos rt = Some node"
  by (auto simp: findFileNode_def Let_def findFileNode_loop_node_at
      split: if_splits option.splits)

lemma removeFile_unfold:
  "removeFile s fpath =
     (case findFileNode (root s) fpath of
        None \<Rightarrow> (False, s)
      | Some (pos, fileNode) \<Rightarrow>
          if isDirectory fileNode then (False, s)
          else (case fileData fileNode of
                  None \<Rightarrow> (True, s\<lparr>root := detach pos fileNode (root s)\<rparr>)
                | Some fdata \<Rightarrow>
                   (True, \<lparr>root = detach pos fileNode (root s),
                           fileMetadataMap = AList.delete (fileId fdata) (fileMetadataMap s),
                           invertedIndex = index_removeFile (invertedIndex s) fdata,
                           nextFileId = nextFileId s\<rparr>)))"
  by (simp add: removeFile_def Let_def split: option.splits)

lemma own_files_subset: "mset (own_files n) \<subseteq># mset (tree_files n)"
  by (simp add: tree_files_unfold [of n])

lemma fileData_in_tree_files:
  "\<not> isDirectory n \<Longrightarrow> fileData n = Some fdata \<Longrightarrow> fdata \<in> set (tree_files n)"
  by (simp add: tree_files_unfold [of n] own_files_def)

lemma node_at_parent:
  assumes "node_at pos t = Some n" "pos \<noteq> []"
  shows "\<exists>parent. node_at (butlast pos) t = Some parent \<and>
           map_of (children parent) (last pos) = Some n"
proof -
  have "node_at (butlast pos @ [last pos]) t = Some n" using assms by simp
  then show ?thesis unfolding node_at_snoc .
qed

lemma tree_ok_detach:
  assumes tr: "tree_ok rt table" and n: "node_at pos rt = Some fileNode"
    and nd: "\<not> isDirectory fileNode"
  shows "isDirectory (detach pos fileNode rt)" "nodes_ok (detach pos fileNode rt)"
    and "mset (tree_files (detach pos fileNode rt)) + mset (tree_files fileNode) \<subseteq>#
           mset (tree_files rt)"
proof -
  have dir: "isDirectory rt" and nm: "nodes_ok rt" using tr by (simp_all add: tree_ok_def)
  have pos: "pos \<noteq> []" using n nd dir by auto
  obtain parent where p: "node_at (butlast pos) rt = Some parent"
    and ch: "map_of (children parent) (last pos) = Some fileNode"
    using node_at_parent [OF n pos] by blast
  have "nodes_ok parent" by (rule nodes_ok_node_at [OF nm p])
  then have nmf: "name fileNode = last pos" using nodes_ok_child [OF _ ch] by simp
  show "isDirectory (detach pos fileNode rt)"
    using dir by (simp add: detach_def isDirectory_modify_at)
  show "nodes_ok (detach pos fileNode rt)"
    using nm by (simp add: detach_def nodes_ok_modify_at nodes_ok_erase_child)
  show "mset (tree_files (detach pos fileNode rt)) + mset (tree_files fileNode) \<subseteq>#
           mset (tree_files rt)"
    using tree_files_detach [OF p ch] pos by (simp add: detach_def nmf)
qed

lemma consistent_removeFile:
  assumes c: "consistent s"
  shows "consistent (snd (removeFile s fpath))"
proof (cases "findFileNode (root s) fpath")
  case None
  then show ?thesis using c by (simp add: removeFile_unfold)
next
  case (Some found)
  obtain pos fileNode where found: "found = (pos, fileNode)" by (cases found)
  have n: "node_at pos (root s) = Some fileNode"
    using Some by (simp add: found findFileNode_node_at)
  have tab: "table_ok (fileMetadataMap s) (nextFileId s)"
    and idx: "index_ok (invertedIndex s) (fileMetadataMap s)"
    and tr: "tree_ok (root s) (fileMetadataMap s)"
    using c by (simp_all add: consistent_def)
  have dist: "distinct (map fileId (tree_files (root s)))"
    and known_all: "\<And>r. r \<in> set (tree_files (root s)) \<Longrightarrow>
                      map_of (fileMetadataMap s) (fileId r) = Some r"
    using tr by (simp_all add: tree_ok_def)
  show ?thesis
  proof (cases "isDirectory fileNode")
    case True
    then show ?thesis using c Some by (simp add: removeFile_unfold found)
  next
    case False
    let ?rt = "detach pos fileNode (root s)"
    note det = tree_ok_detach [OF tr n False]
    have sub: "mset (tree_files ?rt) \<subseteq># mset (tree_files (root s))"
    proof (rule mset_subset_eqI)
      fix a
      show "count (mset (tree_files ?rt)) a \<le> count (mset (tree_files (root s))) a"
        using mset_subset_eq_count [OF det(3), of a] by simp
    qed
    have d: "distinct (map fileId (tree_files ?rt))"
      by (rule distinct_map_mset_subset [OF sub dist])
    have in_old: "r \<in> set (tree_files (root s))" if "r \<in> set (tree_files ?rt)" for r
      using that mset_subset_eqD [OF sub, of r] by simp
    show ?thesis
    proof (cases "fileData fileNode")
      case None
      have "tree_ok ?rt (fileMetadataMap s)"
        using det(1,2) d in_old known_all by (simp add: tree_ok_def)
      then show ?thesis
        using tab idx Some False None by (simp add: removeFile_unfold found consistent_def)
    next
      case (Some fdata)
      have fd: "fdata \<in> set (tree_files fileNode)"
        by (rule fileData_in_tree_files [OF False Some])
      have "fdata \<in> set (tree_files (root s))"
        using fd mset_subset_eqD [OF tree_files_node_at [OF n], of fdata] by simp
      then have known: "map_of (fileMetadataMap s) (fileId fdata) = Some fdata"
        by (rule known_all)
      have "map_of (AList.delete (fileId fdata) (fileMetadataMap s)) (fileId r) = Some r"
        if r: "r \<in> set (tree_files ?rt)" for r
      proof -
        have "fileId r \<noteq> fileId fdata"
          by (rule disjoint_ids_mset_subset [OF det(3) dist r fd])
        then show ?thesis using known_all [OF in_old [OF r]] by (simp add: delete_conv')
      qed
      then have "tree_ok ?rt (AList.delete (fileId fdata) (fileMetadataMap s))"
        using det(1,2) d by (simp add: tree_ok_def)
      then show ?thesis
        using table_ok_delete [OF tab, of "fileId fdata"] index_ok_removeFile [OF idx known]
          \<open>findFileNode (root s) fpath = Some found\<close> False Some
        by (simp add: removeFile_unfold found consistent_def)
    qed
  qed
qed

lemma consistent_new: "consistent new_FileSystemSimulator"
  by (simp add: consistent_def new_FileSystemSimulator_def table_ok_def index_ok_def tree_ok_def
      postings_ok_def size_index_ok_def index_agrees_def posting_at_def)

lemma consistent_step: "consistent s \<Longrightarrow> step s opn = Inr s' \<Longrightarrow> consistent s'"
  by (cases opn) (auto split: sum.splits intro: consistent_addFile consistent_removeFile)

lemma consistent_run: "consistent s \<Longrightarrow> run s ops = Inr s' \<Longrightarrow> consistent s'"
  by (induction ops arbitrary: s) (auto split: sum.splits intro: consistent_step)

lemma consistent_reachable: "run new_FileSystemSimulator ops = Inr s \<Longrightarrow> consistent s"
  by (rule consistent_run [OF consistent_new])

section \<open>Sortedness of the posting lists\<close>

text \<open>
  C9. After any sequence of \<^verbatim>\<open>addFileId\<close> and \<^verbatim>\<open>removeFileId\<close> calls on a new posting
  list, the stored identifiers are strictly increasing, hence without duplicates;
  inserting an identifier that is present and removing one that is absent leave the
  list as it is.
\<close>

theorem posting_list_sorted_unique:
  "sorted_wrt (<) (list_run ops) \<and> distinct (list_run ops) \<and>
   (x \<in> set (list_run ops) \<longrightarrow> addFileId (list_run ops) x = list_run ops) \<and>
   (x \<notin> set (list_run ops) \<longrightarrow> removeFileId (list_run ops) x = list_run ops)"
proof -
  have s: "sorted_wrt (<) (list_run ops)" by (rule sorted_list_run)
  have d: "distinct (list_run ops)"
    using s strict_sorted_iff by blast
  show ?thesis
    using s d addFileId_present removeFileId_absent by blast
qed

theorem posting_list_sorted_unique_witness:
  "list_run [InsertId 5, InsertId 2, InsertId 5, EraseId 7, InsertId 9, EraseId 2] = [5, 9] \<and>
   sorted_wrt (<) (list_run [InsertId 5, InsertId 2, InsertId 5, EraseId 7, InsertId 9, EraseId 2]) \<and>
   (5::int) \<in> set [5, 9] \<and> addFileId [5, 9] 5 = [5, 9] \<and>
   (7::int) \<notin> set [5, 9] \<and> removeFileId [5, 9] 7 = [5, 9]"
proof -
  let ?ops = "[InsertId 5, InsertId 2, InsertId 5, EraseId 7, InsertId 9, EraseId 2]"
  have r: "list_run ?ops = [5, 9]"
    by (simp add: list_run_def posting_simps)
  from posting_list_sorted_unique [of ?ops 5] posting_list_sorted_unique [of ?ops 7] r
  show ?thesis by simp
qed

section \<open>The example of the specification\<close>

lemma run_demo: "run new_FileSystemSimulator demo_ops = Inr demo_store"
  by code_simp

section \<open>Completeness of the indexes\<close>

lemma postings_ok_in_set:
  "postings_ok m \<Longrightarrow> (k, l) \<in> set m \<longleftrightarrow> map_of m k = Some l"
  by (simp add: postings_ok_distinct)

lemma no_empty_postings_if_ok: "postings_ok m \<Longrightarrow> no_empty_postings m"
  unfolding no_empty_postings_def
proof (intro ballI, clarify)
  fix k
  assume ok: "postings_ok m" and "(k, []) \<in> set m"
  then have "map_of m k = Some []" by (simp add: postings_ok_in_set)
  then show False using postings_okD [OF ok] by blast
qed

lemma in_exactly_one_if_agrees:
  assumes ok: "postings_ok m" and ag: "index_agrees attr table m"
    and r: "map_of table i = Some r"
  shows "in_exactly_one m (attr r) i"
proof -
  have mem: "i \<in> set (posting_at m k) \<longleftrightarrow> attr r = k" for k
    using ag r by (simp add: index_agrees_def)
  have "i \<in> set (posting_at m (attr r))" by (simp add: mem)
  then obtain l where l: "map_of m (attr r) = Some l" "i \<in> set l"
    by (cases "map_of m (attr r)") (simp_all add: posting_at_def)
  have ex: "\<exists>l. (attr r, l) \<in> set m \<and> i \<in> set l"
    using l postings_ok_in_set [OF ok] by blast
  have all: "distinct l' \<and> (i \<in> set l' \<longrightarrow> k' = attr r)" if "(k', l') \<in> set m" for k' l'
  proof -
    have m: "map_of m k' = Some l'" using that postings_ok_in_set [OF ok] by simp
    then have "sorted_wrt (<) l'" using postings_okD [OF ok] by blast
    then have "distinct l'" using strict_sorted_iff by blast
    moreover have "posting_at m k' = l'" using m by (simp add: posting_at_def)
    ultimately show ?thesis using mem [of k'] by auto
  qed
  show ?thesis
    unfolding in_exactly_one_def using postings_ok_distinct [OF ok] ex all by blast
qed

text \<open>
  C2. After any sequence of \<^verbatim>\<open>addFile\<close> and \<^verbatim>\<open>removeFile\<close> calls on a new store,
  the identifier of every record of the flat table is in exactly one posting list of each
  of the four indexes, the one stored under the record's own extension, size, owner and
  creation time, and no index stores an empty posting list.
\<close>

theorem index_completeness:
  assumes "run new_FileSystemSimulator ops = Inr s" and "(i, r) \<in> set (fileMetadataMap s)"
  shows "fileId r = i \<and>
     in_exactly_one (extensionIndex (invertedIndex s)) (extension r) i \<and>
     in_exactly_one (sizeIndex (invertedIndex s)) (fileSize r) i \<and>
     in_exactly_one (ownerIndex (invertedIndex s)) (owner r) i \<and>
     in_exactly_one (timeIndex (invertedIndex s)) (createTime r) i \<and>
     no_empty_postings (extensionIndex (invertedIndex s)) \<and>
     no_empty_postings (sizeIndex (invertedIndex s)) \<and>
     no_empty_postings (ownerIndex (invertedIndex s)) \<and>
     no_empty_postings (timeIndex (invertedIndex s))"
proof -
  have c: "consistent s" by (rule consistent_reachable [OF assms(1)])
  then have tab: "table_ok (fileMetadataMap s) (nextFileId s)"
    and idx: "index_ok (invertedIndex s) (fileMetadataMap s)"
    by (simp_all add: consistent_def)
  have r: "map_of (fileMetadataMap s) i = Some r"
    using assms(2) table_ok_distinct [OF tab] by simp
  have "fileId r = i" using table_okD [OF tab r] by simp
  moreover have "postings_ok (sizeIndex (invertedIndex s))"
    using idx by (simp add: index_ok_def size_index_ok_postings)
  ultimately show ?thesis
    using idx by (simp add: index_ok_def in_exactly_one_if_agrees [OF _ _ r] no_empty_postings_if_ok)
qed

theorem index_completeness_witness:
  "run new_FileSystemSimulator demo_ops = Inr demo_store \<and>
   (2, demo_b) \<in> set (fileMetadataMap demo_store) \<and>
   in_exactly_one (extensionIndex (invertedIndex demo_store)) ''.png'' 2 \<and>
   in_exactly_one (sizeIndex (invertedIndex demo_store)) 500000 2 \<and>
   in_exactly_one (ownerIndex (invertedIndex demo_store)) ''u1'' 2 \<and>
   in_exactly_one (timeIndex (invertedIndex demo_store)) ''2024-01-16'' 2 \<and>
   no_empty_postings (extensionIndex (invertedIndex demo_store))"
proof -
  have h1: "run new_FileSystemSimulator demo_ops = Inr demo_store" by (rule run_demo)
  have h2: "(2, demo_b) \<in> set (fileMetadataMap demo_store)" by (simp add: demo_store_def)
  have "extension demo_b = ''.png''" "fileSize demo_b = 500000" "owner demo_b = ''u1''"
    "createTime demo_b = ''2024-01-16''"
    by (simp_all add: demo_b_def)
  with index_completeness [OF h1 h2] h1 h2 show ?thesis by simp
qed

section \<open>Identifiers\<close>

lemma nextFileId_addFile:
  "addFile s path fname ext fsize own ctime = Inr (ok, s') \<Longrightarrow>
     nextFileId s' = (if ok then nextFileId s + 1 else nextFileId s)"
  by (cases ok) (auto simp: addFile_True addFile_False)

lemma nextFileId_removeFile: "nextFileId (snd (removeFile s fpath)) = nextFileId s"
  by (simp add: removeFile_unfold split: option.splits)

lemma assigned_ids_lower: "i \<in> set (assigned_ids s ops) \<Longrightarrow> nextFileId s \<le> i"
proof (induction s ops rule: assigned_ids.induct)
  case (1 s)
  then show ?case by simp
next
  case (2 s path fname ext fsize own ctime ops)
  show ?case
  proof (cases "addFile s path fname ext fsize own ctime")
    case (Inl u)
    with 2 show ?thesis by simp
  next
    case (Inr res)
    obtain ok s' where res: "res = (ok, s')" by (cases res)
    have n: "nextFileId s' = (if ok then nextFileId s + 1 else nextFileId s)"
      using Inr by (simp add: res nextFileId_addFile)
    from "2.prems" Inr res have "i = nextFileId s \<or> i \<in> set (assigned_ids s' ops)"
      by (auto split: if_splits)
    then show ?thesis using "2.IH" [OF Inr res [symmetric]] n by (auto split: if_splits)
  qed
next
  case (3 s fpath ops)
  then show ?case by (simp add: nextFileId_removeFile)
qed

lemma assigned_ids_upper: "i \<in> set (assigned_ids s ops) \<Longrightarrow> i < INT_MAX"
proof (induction s ops rule: assigned_ids.induct)
  case (1 s)
  then show ?case by simp
next
  case (2 s path fname ext fsize own ctime ops)
  show ?case
  proof (cases "addFile s path fname ext fsize own ctime")
    case (Inl u)
    with 2 show ?thesis by simp
  next
    case (Inr res)
    obtain ok s' where res: "res = (ok, s')" by (cases res)
    from "2.prems" Inr res
    have "(ok \<and> i = nextFileId s) \<or> i \<in> set (assigned_ids s' ops)"
      by (auto split: if_splits)
    moreover have "nextFileId s < INT_MAX" if ok
      using Inr that by (auto simp: res addFile_True)
    ultimately show ?thesis using "2.IH" [OF Inr res [symmetric]] by auto
  qed
next
  case (3 s fpath ops)
  then show ?case by simp
qed

lemma sorted_assigned_ids: "sorted_wrt (<) (assigned_ids s ops)"
proof (induction s ops rule: assigned_ids.induct)
  case (1 s)
  then show ?case by simp
next
  case (2 s path fname ext fsize own ctime ops)
  show ?case
  proof (cases "addFile s path fname ext fsize own ctime")
    case (Inl u)
    then show ?thesis by simp
  next
    case (Inr res)
    obtain ok s' where res: "res = (ok, s')" by (cases res)
    have n: "nextFileId s' = (if ok then nextFileId s + 1 else nextFileId s)"
      using Inr by (simp add: res nextFileId_addFile)
    have "\<forall>i \<in> set (assigned_ids s' ops). nextFileId s' \<le> i"
      using assigned_ids_lower by blast
    then show ?thesis using "2.IH" [OF Inr res [symmetric]] n Inr
      by (auto simp: res split: if_splits)
  qed
next
  case (3 s fpath ops)
  then show ?case by simp
qed

lemma run_readded: "run new_FileSystemSimulator readded_ops = Inr readded_store"
  by code_simp

lemma run_append:
  "run s (xs @ ys) = (case run s xs of Inl u \<Rightarrow> Inl u | Inr s' \<Rightarrow> run s' ys)"
  by (induction xs arbitrary: s) (auto split: sum.splits)

lemma nextFileId_step:
  "step s opn = Inr s' \<Longrightarrow> nextFileId s \<le> nextFileId s'"
  by (cases opn) (auto simp: nextFileId_removeFile split: sum.splits dest!: nextFileId_addFile)

lemma nextFileId_run: "run s ops = Inr s' \<Longrightarrow> nextFileId s \<le> nextFileId s'"
proof (induction ops arbitrary: s)
  case Nil
  then show ?case by simp
next
  case (Cons opn ops)
  then obtain s1 where s1: "step s opn = Inr s1" "run s1 ops = Inr s'"
    by (auto split: sum.splits)
  show ?case using nextFileId_step [OF s1(1)] Cons.IH [OF s1(2)] by simp
qed

lemma assigned_ids_upto:
  "run s ops = Inr s' \<Longrightarrow> assigned_ids s ops = [nextFileId s .. nextFileId s' - 1]"
proof (induction ops arbitrary: s)
  case Nil
  then show ?case by simp
next
  case (Cons opn ops)
  show ?case
  proof (cases opn)
    case (AddFile path fname ext fsize own ctime)
    from Cons.prems obtain ok s1 where
      a: "addFile s path fname ext fsize own ctime = Inr (ok, s1)" and r: "run s1 ops = Inr s'"
      by (auto simp: AddFile split: sum.splits)
    have n: "nextFileId s1 = (if ok then nextFileId s + 1 else nextFileId s)"
      by (rule nextFileId_addFile [OF a])
    have le: "nextFileId s1 \<le> nextFileId s'" by (rule nextFileId_run [OF r])
    show ?thesis
    proof (cases ok)
      case True
      then have "nextFileId s \<le> nextFileId s' - 1" using n le by simp
      then have "[nextFileId s .. nextFileId s' - 1] =
                 nextFileId s # [nextFileId s + 1 .. nextFileId s' - 1]"
        by (rule upto_rec1)
      then show ?thesis using a True n Cons.IH [OF r] by (simp add: AddFile)
    next
      case False
      then show ?thesis using a n Cons.IH [OF r] by (simp add: AddFile)
    qed
  next
    case (RemoveFile fpath)
    then show ?thesis
      using Cons.prems Cons.IH [of "snd (removeFile s fpath)"]
      by (simp add: nextFileId_removeFile)
  qed
qed

lemma run_total_below:
  "nextFileId s + int (length (filter is_AddFile ops)) \<le> INT_MAX \<Longrightarrow> \<exists>s'. run s ops = Inr s'"
proof (induction ops arbitrary: s)
  case Nil
  then show ?case by simp
next
  case (Cons opn ops)
  show ?case
  proof (cases opn)
    case (AddFile path fname ext fsize own ctime)
    then have lt: "nextFileId s < INT_MAX" using Cons.prems by simp
    then have "\<exists>ok s1. addFile s path fname ext fsize own ctime = Inr (ok, s1)"
      by (cases "getOrCreatePath (root s) path") (auto simp: addFile_def Let_def)
    then obtain ok s1 where a: "addFile s path fname ext fsize own ctime = Inr (ok, s1)"
      by blast
    have "nextFileId s1 \<le> nextFileId s + 1" using nextFileId_addFile [OF a] by simp
    then have "nextFileId s1 + int (length (filter is_AddFile ops)) \<le> INT_MAX"
      using Cons.prems by (simp add: AddFile)
    from Cons.IH [OF this] show ?thesis using a by (simp add: AddFile)
  next
    case (RemoveFile fpath)
    then show ?thesis
      using Cons.prems Cons.IH [of "snd (removeFile s fpath)"]
      by (simp add: nextFileId_removeFile)
  qed
qed

lemma run_add_remove_pair:
  assumes "k < INT_MAX"
  shows "run (new_FileSystemSimulator\<lparr>nextFileId := k\<rparr>) add_remove_pair =
           Inr (new_FileSystemSimulator\<lparr>nextFileId := k + 1\<rparr>)"
  using assms
  by (simp add: add_remove_pair_def new_FileSystemSimulator_def addFile_def getOrCreatePath_def
      new_FileMetadata_def join_path_def index_addFile_def umap_add_def omap_add_def
      posting_at_def posting_simps removeFile_def findFileNode_def detach_def
      index_removeFile_def umap_remove_def omap_remove_def Let_def set_child_def
      erase_child_def)

lemma run_add_remove_pairs:
  "1 + int n \<le> INT_MAX \<Longrightarrow>
     run new_FileSystemSimulator (concat (replicate n add_remove_pair)) =
       Inr (new_FileSystemSimulator\<lparr>nextFileId := 1 + int n\<rparr>)"
proof (induction n)
  case 0
  then show ?case by (simp add: new_FileSystemSimulator_def)
next
  case (Suc n)
  have "concat (replicate (Suc n) add_remove_pair) =
        concat (replicate n add_remove_pair) @ add_remove_pair"
    by (metis concat.simps(2) concat_append replicate_Suc replicate_append_same append_Nil2
        concat.simps(1))
  moreover have "run new_FileSystemSimulator (concat (replicate n add_remove_pair)) =
       Inr (new_FileSystemSimulator\<lparr>nextFileId := 1 + int n\<rparr>)"
    using Suc by simp
  moreover have "1 + int n < INT_MAX" using Suc.prems by simp
  ultimately show ?case
    using run_add_remove_pair [of "1 + int n"] by (simp add: run_append add.commute add.left_commute)
qed

lemma length_adds_pairs:
  "length (filter is_AddFile (concat (replicate n add_remove_pair))) = n"
  by (induction n) (simp_all add: add_remove_pair_def)

lemma nextFileId_bounded:
  "run s ops = Inr s' \<Longrightarrow> nextFileId s \<le> INT_MAX \<Longrightarrow> nextFileId s' \<le> INT_MAX"
proof (induction ops arbitrary: s)
  case Nil
  then show ?case by simp
next
  case (Cons opn ops)
  show ?case
  proof (cases opn)
    case (AddFile path fname ext fsize own ctime)
    from Cons.prems(1) obtain ok s1 where
      a: "addFile s path fname ext fsize own ctime = Inr (ok, s1)" and r: "run s1 ops = Inr s'"
      by (auto simp: AddFile split: sum.splits)
    have "nextFileId s < INT_MAX" if ok
      using a that by (auto simp: addFile_True)
    then have "nextFileId s1 \<le> INT_MAX"
      using nextFileId_addFile [OF a] Cons.prems(2) by (cases ok) auto
    from Cons.IH [OF r this] show ?thesis .
  next
    case (RemoveFile fpath)
    then show ?thesis
      using Cons.prems Cons.IH [of "snd (removeFile s fpath)"]
      by (simp add: nextFileId_removeFile)
  qed
qed

lemma sorted_wrt_upto: "sorted_wrt (<) [i .. j]"
proof (induction i j rule: upto.induct)
  case (1 i j)
  then show ?case by (subst upto.simps) auto
qed

text \<open>
  C8, within the range of the counter. From any store whose counter leaves room for the
  \<^verbatim>\<open>addFile\<close> calls of a sequence of \<^verbatim>\<open>addFile\<close> and \<^verbatim>\<open>removeFile\<close> calls, so from the
  initial store when there are fewer than \<^verbatim>\<open>INT_MAX\<close> of them, every call of the sequence has
  a defined behaviour. Whenever a sequence runs from a store \<open>s0\<close> to a store \<open>s\<close>, the
  identifiers given by its successful \<^verbatim>\<open>addFile\<close> calls are, in the order of the calls, the
  consecutive integers from the counter of \<open>s0\<close> to the one below the counter of \<open>s\<close>:
  they are strictly increasing and none is given twice, whatever was removed in between.
  From the initial store they start at \<open>1\<close> and stay below \<^verbatim>\<open>INT_MAX\<close>.
\<close>

theorem identifiers_increasing_below_INT_MAX:
  "(nextFileId s0 + int (length (filter is_AddFile ops)) \<le> INT_MAX \<longrightarrow>
      (\<exists>s. run s0 ops = Inr s)) \<and>
   (run s0 ops = Inr s \<longrightarrow>
      assigned_ids s0 ops = [nextFileId s0 .. nextFileId s - 1] \<and>
      sorted_wrt (<) (assigned_ids s0 ops) \<and> distinct (assigned_ids s0 ops) \<and>
      (\<forall>i \<in> set (assigned_ids s0 ops). nextFileId s0 \<le> i \<and> i < nextFileId s)) \<and>
   (int (length (filter is_AddFile ops)) < INT_MAX \<longrightarrow>
      (\<exists>s. run new_FileSystemSimulator ops = Inr s)) \<and>
   (run new_FileSystemSimulator ops = Inr s' \<longrightarrow>
      assigned_ids new_FileSystemSimulator ops = [1 .. nextFileId s' - 1] \<and>
      nextFileId s' \<le> INT_MAX \<and>
      (\<forall>i \<in> set (assigned_ids new_FileSystemSimulator ops). 1 \<le> i \<and> i < INT_MAX))"
proof (intro conjI impI)
  assume "nextFileId s0 + int (length (filter is_AddFile ops)) \<le> INT_MAX"
  then show "\<exists>s. run s0 ops = Inr s" by (rule run_total_below)
next
  assume r: "run s0 ops = Inr s"
  show e: "assigned_ids s0 ops = [nextFileId s0 .. nextFileId s - 1]"
    by (rule assigned_ids_upto [OF r])
  show "sorted_wrt (<) (assigned_ids s0 ops)" unfolding e by (rule sorted_wrt_upto)
  show "distinct (assigned_ids s0 ops)" unfolding e by simp
  show "\<forall>i \<in> set (assigned_ids s0 ops). nextFileId s0 \<le> i \<and> i < nextFileId s"
    unfolding e by simp
next
  assume "int (length (filter is_AddFile ops)) < INT_MAX"
  then have "nextFileId new_FileSystemSimulator + int (length (filter is_AddFile ops)) \<le> INT_MAX"
    by (simp add: new_FileSystemSimulator_def)
  then show "\<exists>s. run new_FileSystemSimulator ops = Inr s" by (rule run_total_below)
next
  assume r: "run new_FileSystemSimulator ops = Inr s'"
  have one: "nextFileId new_FileSystemSimulator = 1" by (simp add: new_FileSystemSimulator_def)
  show e: "assigned_ids new_FileSystemSimulator ops = [1 .. nextFileId s' - 1]"
    using assigned_ids_upto [OF r] by (simp only: one)
  show b: "nextFileId s' \<le> INT_MAX"
    using nextFileId_bounded [OF r] by (simp add: one INT_MAX_def)
  show "\<forall>i \<in> set (assigned_ids new_FileSystemSimulator ops). 1 \<le> i \<and> i < INT_MAX"
    unfolding e using b by simp
qed

theorem identifiers_increasing_below_INT_MAX_witness:
  "nextFileId new_FileSystemSimulator + int (length (filter is_AddFile readded_ops)) \<le> INT_MAX \<and>
   int (length (filter is_AddFile readded_ops)) < INT_MAX \<and>
   run new_FileSystemSimulator readded_ops = Inr readded_store \<and>
   assigned_ids new_FileSystemSimulator readded_ops = [1, 2] \<and>
   nextFileId new_FileSystemSimulator = 1 \<and>
   nextFileId readded_store = 3 \<and>
   sorted_wrt (<) (assigned_ids new_FileSystemSimulator readded_ops) \<and>
   distinct (assigned_ids new_FileSystemSimulator readded_ops) \<and>
   nextFileId readded_store \<le> INT_MAX"
proof -
  have n: "length (filter is_AddFile readded_ops) = 2" by (simp add: readded_ops_def)
  have h1: "nextFileId new_FileSystemSimulator + int (length (filter is_AddFile readded_ops))
              \<le> INT_MAX"
    and h2: "int (length (filter is_AddFile readded_ops)) < INT_MAX"
    and one: "nextFileId new_FileSystemSimulator = 1"
    unfolding n by (simp_all add: new_FileSystemSimulator_def INT_MAX_def)
  have three: "nextFileId readded_store = 3" by (simp add: readded_store_def)
  have u: "[1 .. 3 - 1] = [1, 2 :: int]" by code_simp
  note t = identifiers_increasing_below_INT_MAX
         [of new_FileSystemSimulator readded_ops readded_store readded_store]
  have c1: "sorted_wrt (<) (assigned_ids new_FileSystemSimulator readded_ops)"
    and c2: "distinct (assigned_ids new_FileSystemSimulator readded_ops)"
    and c3: "assigned_ids new_FileSystemSimulator readded_ops = [1 .. nextFileId readded_store - 1]"
    and c4: "nextFileId readded_store \<le> INT_MAX"
    using t run_readded by blast+
  have concl: "assigned_ids new_FileSystemSimulator readded_ops = [1, 2]"
    using c3 unfolding three u .
  show ?thesis
    by (intro conjI h1 h2 run_readded concl one three c1 c2 c4)
qed

text \<open>
  C8 as it is stated, at the input where the code breaks it: \<open>2147483646\<close> files have been
  added and removed one after the other, which has given the identifiers from \<open>1\<close> to
  \<open>2147483646\<close> and left the counter at \<^verbatim>\<open>INT_MAX\<close> in an empty store. The next
  \<^verbatim>\<open>addFile\<close> has a valid path, and its \<^verbatim>\<open>nextFileId++\<close> increments an \<^verbatim>\<open>int\<close> that holds
  \<^verbatim>\<open>INT_MAX\<close>: C++ defines no behaviour for it, so nothing makes the identifiers given from
  there on greater than the earlier ones, or new.
\<close>

theorem identifiers_counter_overflow:
  "length (filter is_AddFile counter_max_ops) = 2147483646 \<and>
   run new_FileSystemSimulator counter_max_ops = Inr counter_max_store \<and>
   assigned_ids new_FileSystemSimulator counter_max_ops = [1 .. INT_MAX - 1] \<and>
   nextFileId counter_max_store = INT_MAX \<and>
   getOrCreatePath (root counter_max_store) ''/'' = Some (root counter_max_store, []) \<and>
   addFile counter_max_store ''/'' ''a'' ''.x'' 1 ''u'' ''t'' = Inl SignedOverflow \<and>
   run new_FileSystemSimulator (counter_max_ops @ [AddFile ''/'' ''a'' ''.x'' 1 ''u'' ''t''])
     = Inl SignedOverflow"
proof -
  have le: "1 + int 2147483646 \<le> INT_MAX" and eq: "1 + int 2147483646 = INT_MAX"
    by (simp_all add: INT_MAX_def)
  have r: "run new_FileSystemSimulator counter_max_ops = Inr counter_max_store"
    using run_add_remove_pairs [OF le]
    by (simp only: eq counter_max_ops_def counter_max_store_def)
  have n: "nextFileId counter_max_store = INT_MAX"
    by (simp add: counter_max_store_def)
  have one: "nextFileId new_FileSystemSimulator = 1" by (simp add: new_FileSystemSimulator_def)
  have ids: "assigned_ids new_FileSystemSimulator counter_max_ops = [1 .. INT_MAX - 1]"
    using assigned_ids_upto [OF r] by (simp only: one n)
  have g: "getOrCreatePath (root counter_max_store) ''/'' = Some (root counter_max_store, [])"
    by (simp add: counter_max_store_def new_FileSystemSimulator_def getOrCreatePath_def)
  have a: "addFile counter_max_store ''/'' ''a'' ''.x'' 1 ''u'' ''t'' = Inl SignedOverflow"
    by (simp add: addFile_def g n)
  have r': "run new_FileSystemSimulator (counter_max_ops @ [AddFile ''/'' ''a'' ''.x'' 1 ''u'' ''t''])
     = Inl SignedOverflow"
    by (simp only: run_append r sum.case run.simps step.simps a)
  have len: "length (filter is_AddFile counter_max_ops) = 2147483646"
    by (simp only: counter_max_ops_def length_adds_pairs)
  show ?thesis by (intro conjI len r ids n g a r')
qed

section \<open>Paths\<close>

lemma getline_parts_delim:
  "filter (\<lambda>part. part \<noteq> []) (getline_parts acc (x @ CHR ''/'' # y)) =
     filter (\<lambda>part. part \<noteq> []) (getline_parts acc x)
       @ filter (\<lambda>part. part \<noteq> []) (getline_parts [] y)"
  by (induction x arbitrary: acc) simp_all

lemma getline_parts_plain:
  "CHR ''/'' \<notin> set x \<Longrightarrow> acc @ x \<noteq> [] \<Longrightarrow> getline_parts acc x = [acc @ x]"
  by (induction x arbitrary: acc) auto

lemma getOrCreatePath_loop_filter:
  "getOrCreatePath_loop (filter (\<lambda>part. part \<noteq> []) parts) current =
     getOrCreatePath_loop parts current"
  by (induction parts arbitrary: current) (simp_all split: option.splits)

lemma getOrCreatePath_None:
  "getOrCreatePath rt path = None \<longleftrightarrow> path = [] \<or> hd path \<noteq> CHR ''/''"
  by (simp add: getOrCreatePath_def Let_def)

lemma getOrCreatePath_root: "getOrCreatePath rt ''/'' = Some (rt, [])"
  by (simp add: getOrCreatePath_def)

lemma getOrCreatePath_eq:
  "getOrCreatePath rt path =
     (if path = [] \<or> hd path \<noteq> CHR ''/'' then None
      else Some (getOrCreatePath_loop (filter (\<lambda>part. part \<noteq> []) (getline_parts [] (tl path))) rt,
                 filter (\<lambda>part. part \<noteq> []) (getline_parts [] (tl path))))"
  by (cases path) (auto simp: getOrCreatePath_def Let_def getOrCreatePath_loop_filter)

lemma getOrCreatePath_duplicate_delimiter:
  "getOrCreatePath rt (a @ ''//'' @ b) = getOrCreatePath rt (a @ ''/'' @ b)"
proof (cases a)
  case Nil
  then show ?thesis by (simp add: getOrCreatePath_eq)
next
  case (Cons c a')
  then show ?thesis by (simp add: getOrCreatePath_eq getline_parts_delim)
qed

text \<open>
  C7. \<^verbatim>\<open>addFile\<close> returns \<open>false\<close> exactly when the path is empty or does not begin with
  \<^verbatim>\<open>/\<close>, and then the store is as it was. For the other paths, an empty part is skipped
  by the walk, so a doubled delimiter anywhere in a path changes nothing, and the path
  \<^verbatim>\<open>/\<close> gives the root itself with the tree untouched.
\<close>

theorem addFile_rejects_invalid_path:
  "(addFile s path fname ext fsize own ctime = Inr (False, s') \<longleftrightarrow>
      (path = [] \<or> hd path \<noteq> CHR ''/'') \<and> s' = s) \<and>
   getOrCreatePath rt ''/'' = Some (rt, []) \<and>
   getOrCreatePath_loop ([] # parts) current = getOrCreatePath_loop parts current \<and>
   getOrCreatePath rt (a @ ''//'' @ b) = getOrCreatePath rt (a @ ''/'' @ b)"
  using getOrCreatePath_duplicate_delimiter [of rt a b]
  by (simp add: addFile_False getOrCreatePath_None getOrCreatePath_root)

theorem addFile_rejects_invalid_path_witness:
  "addFile demo_store ''home/u1'' ''c.txt'' ''.txt'' 7 ''u1'' ''2024-01-17'' = Inr (False, demo_store) \<and>
   addFile demo_store [] ''c.txt'' ''.txt'' 7 ''u1'' ''2024-01-17'' = Inr (False, demo_store) \<and>
   getOrCreatePath (root demo_store) ''/'' = Some (root demo_store, []) \<and>
   getOrCreatePath (root demo_store) ''//home///u1'' = Some (root demo_store, [''home'', ''u1''])"
proof -
  note t = addFile_rejects_invalid_path
  have 1: "addFile demo_store ''home/u1'' ''c.txt'' ''.txt'' 7 ''u1'' ''2024-01-17''
             = Inr (False, demo_store)"
    using t [of demo_store "''home/u1''" "''c.txt''" "''.txt''" 7 "''u1''" "''2024-01-17''" demo_store]
    by simp
  have 2: "addFile demo_store [] ''c.txt'' ''.txt'' 7 ''u1'' ''2024-01-17'' = Inr (False, demo_store)"
    using t [of demo_store "[]" "''c.txt''" "''.txt''" 7 "''u1''" "''2024-01-17''" demo_store]
    by simp
  have 3: "getOrCreatePath (root demo_store) ''/'' = Some (root demo_store, [])"
    using t [of demo_store "[]" "[]" "[]" 0 "[]" "[]" demo_store "root demo_store"] by simp
  have "getOrCreatePath (root demo_store) ''//home///u1''
          = getOrCreatePath (root demo_store) ''/home///u1''"
    using t [of demo_store "[]" "[]" "[]" 0 "[]" "[]" demo_store "root demo_store" "[]" "root demo_store"
        "[]" "''home///u1''"] by simp
  also have "\<dots> = getOrCreatePath (root demo_store) ''/home//u1''"
    using t [of demo_store "[]" "[]" "[]" 0 "[]" "[]" demo_store "root demo_store" "[]" "root demo_store"
        "''/home''" "''/u1''"] by simp
  also have "\<dots> = getOrCreatePath (root demo_store) ''/home/u1''"
    using t [of demo_store "[]" "[]" "[]" 0 "[]" "[]" demo_store "root demo_store" "[]" "root demo_store"
        "''/home''" "''u1''"] by simp
  also have "\<dots> = Some (root demo_store, [''home'', ''u1''])"
    by code_simp
  finally show ?thesis using 1 2 3 by simp
qed

section \<open>The size range query\<close>

lemma map_lower_bound_Nil: "map_lower_bound [] lo = 0"
  and map_upper_bound_Nil: "map_upper_bound [] hi = 0"
  by (simp_all add: map_lower_bound_def map_upper_bound_def)

lemma map_lower_bound_Cons:
  "map_lower_bound ((k, l) # m) lo = (if k < lo then Suc (map_lower_bound m lo) else 0)"
  by (simp add: map_lower_bound_def)

lemma map_upper_bound_Cons:
  "map_upper_bound ((k, l) # m) hi = (if k \<le> hi then Suc (map_upper_bound m hi) else 0)"
  by (simp add: map_upper_bound_def)

lemma map_lower_bound_0:
  "\<forall>k \<in> fst ` set m. lo \<le> k \<Longrightarrow> map_lower_bound m lo = 0"
  by (cases m) (auto simp: map_lower_bound_def)

lemma map_upper_bound_le: "map_upper_bound m hi \<le> length m"
  by (simp add: map_upper_bound_def length_takeWhile_le)

lemma scan_range_done: "scan_range m it it acc = Inr acc"
  by (subst scan_range.simps) simp

lemma scan_range_shift:
  "scan_range (e # m) (Suc it) (Suc upper) acc = scan_range m it upper acc"
proof (induction m it upper acc rule: scan_range.induct)
  case (1 m it upper result)
  show ?case
  proof (cases "it = upper \<or> length m \<le> it")
    case True
    then show ?thesis
      by (subst scan_range.simps, subst (2) scan_range.simps) auto
  next
    case False
    then have "scan_range (e # m) (Suc it) (Suc upper) result =
               scan_range (e # m) (Suc (Suc it)) (Suc upper) (result @ snd (m ! it))"
      by (subst scan_range.simps) simp
    also have "\<dots> = scan_range m (Suc it) upper (result @ snd (m ! it))"
      using False by (intro "1.IH") simp_all
    also have "\<dots> = scan_range m it upper result"
      using False by (subst (2) scan_range.simps) simp
    finally show ?thesis .
  qed
qed

lemma scan_range_sorted:
  assumes "sorted_wrt (<) (map fst m)" "lo \<le> hi"
  shows "scan_range m (map_lower_bound m lo) (map_upper_bound m hi) acc =
           Inr (acc @ concat (map snd (filter (\<lambda>e. lo \<le> fst e \<and> fst e \<le> hi) m)))"
  using assms(1)
proof (induction m arbitrary: acc)
  case Nil
  then show ?case by (simp add: map_lower_bound_Nil map_upper_bound_Nil scan_range_done)
next
  case (Cons e m)
  obtain k l where e: "e = (k, l)" by (cases e)
  have srt: "sorted_wrt (<) (map fst m)" and above: "\<forall>k' \<in> fst ` set m. k < k'"
    using Cons.prems by (auto simp: e)
  note IH = Cons.IH [OF srt]
  consider "k < lo" | "lo \<le> k" "k \<le> hi" | "hi < k" by linarith
  then show ?case
  proof cases
    case 1
    then have "k \<le> hi" using assms(2) by simp
    then show ?thesis
      using 1 by (simp add: e map_lower_bound_Cons map_upper_bound_Cons scan_range_shift IH)
  next
    case 2
    have lb: "map_lower_bound m lo = 0"
      using above 2 by (intro map_lower_bound_0) auto
    have "scan_range ((k, l) # m) 0 (Suc (map_upper_bound m hi)) acc =
          scan_range ((k, l) # m) (Suc 0) (Suc (map_upper_bound m hi)) (acc @ l)"
      by (subst scan_range.simps) simp
    also have "\<dots> = scan_range m (map_lower_bound m lo) (map_upper_bound m hi) (acc @ l)"
      by (simp add: scan_range_shift lb)
    finally show ?thesis
      using 2 by (simp add: e map_lower_bound_Cons map_upper_bound_Cons IH)
  next
    case 3
    then have "lo \<le> k" using assms(2) by simp
    moreover have "filter (\<lambda>e. lo \<le> fst e \<and> fst e \<le> hi) m = []"
      using above 3 by (auto simp: filter_empty_conv)
    ultimately show ?thesis
      using 3 by (simp add: e map_lower_bound_Cons map_upper_bound_Cons scan_range_done)
  qed
qed

lemma set_concat_postings:
  assumes ok: "postings_ok m"
  shows "set (concat (map snd (filter (\<lambda>e. lo \<le> fst e \<and> fst e \<le> hi) m))) =
           {i. \<exists>k. lo \<le> k \<and> k \<le> hi \<and> i \<in> set (posting_at m k)}"
proof (intro set_eqI iffI)
  fix i
  assume "i \<in> set (concat (map snd (filter (\<lambda>e. lo \<le> fst e \<and> fst e \<le> hi) m)))"
  then obtain k l where kl: "(k, l) \<in> set m" "lo \<le> k" "k \<le> hi" "i \<in> set l" by auto
  then have "map_of m k = Some l" using postings_ok_in_set [OF ok] by simp
  then have "posting_at m k = l" by (simp add: posting_at_def)
  with kl show "i \<in> {i. \<exists>k. lo \<le> k \<and> k \<le> hi \<and> i \<in> set (posting_at m k)}" by blast
next
  fix i
  assume "i \<in> {i. \<exists>k. lo \<le> k \<and> k \<le> hi \<and> i \<in> set (posting_at m k)}"
  then obtain k where k: "lo \<le> k" "k \<le> hi" "i \<in> set (posting_at m k)" by blast
  then obtain l where l: "map_of m k = Some l" "i \<in> set l"
    by (cases "map_of m k") (simp_all add: posting_at_def)
  then have "(k, l) \<in> set m" using postings_ok_in_set [OF ok] by simp
  with k l show "i \<in> set (concat (map snd (filter (\<lambda>e. lo \<le> fst e \<and> fst e \<le> hi) m)))"
    by force
qed

lemma table_ok_in_set:
  "table_ok table next \<Longrightarrow> (i, r) \<in> set table \<longleftrightarrow> map_of table i = Some r"
  by (simp add: table_ok_distinct)

lemma table_ok_map_fileId:
  assumes "table_ok table next"
  shows "map fileId (map snd table) = map fst table"
proof -
  have "fileId (snd e) = fst e" if "e \<in> set table" for e
    using that table_okD [OF assms, of "fst e" "snd e"] table_ok_in_set [OF assms, of "fst e" "snd e"]
    by simp
  then show ?thesis by simp
qed

lemma set_ids_in_range:
  assumes tab: "table_ok (fileMetadataMap s) (nextFileId s)"
  shows "set (map fileId (records_in_range s lo hi)) =
           {i. \<exists>r. map_of (fileMetadataMap s) i = Some r \<and> lo \<le> fileSize r \<and> fileSize r \<le> hi}"
proof (intro set_eqI iffI)
  fix i
  assume "i \<in> set (map fileId (records_in_range s lo hi))"
  then obtain j r where r: "(j, r) \<in> set (fileMetadataMap s)" "lo \<le> fileSize r"
    "fileSize r \<le> hi" "i = fileId r"
    by (auto simp: records_in_range_def)
  then have "map_of (fileMetadataMap s) j = Some r" using table_ok_in_set [OF tab] by simp
  moreover from this have "fileId r = j" using table_okD [OF tab] by blast
  ultimately show "i \<in> {i. \<exists>r. map_of (fileMetadataMap s) i = Some r \<and> lo \<le> fileSize r
      \<and> fileSize r \<le> hi}"
    using r by auto
next
  fix i
  assume "i \<in> {i. \<exists>r. map_of (fileMetadataMap s) i = Some r \<and> lo \<le> fileSize r
      \<and> fileSize r \<le> hi}"
  then obtain r where r: "map_of (fileMetadataMap s) i = Some r" "lo \<le> fileSize r"
    "fileSize r \<le> hi" by blast
  then have "(i, r) \<in> set (fileMetadataMap s)" "fileId r = i"
    using table_ok_in_set [OF tab] table_okD [OF tab r(1)] by simp_all
  with r show "i \<in> set (map fileId (records_in_range s lo hi))"
    by (force simp: records_in_range_def)
qed

lemma distinct_ids_in_range:
  assumes tab: "table_ok (fileMetadataMap s) (nextFileId s)"
  shows "distinct (map fileId (records_in_range s lo hi))"
proof -
  have "distinct (map fileId (map snd (fileMetadataMap s)))"
    using table_ok_distinct [OF tab] by (simp only: table_ok_map_fileId [OF tab])
  then show ?thesis unfolding records_in_range_def by (rule distinct_map_filter)
qed

lemma distinct_remdups_adj_sorted:
  "sorted (xs :: int list) \<Longrightarrow> distinct (remdups_adj xs)"
proof (induction xs rule: remdups_adj.induct)
  case 1
  then show ?case by simp
next
  case (2 x)
  then show ?case by simp
next
  case (3 x y xs)
  show ?case
  proof (cases "x = y")
    case True
    with 3 show ?thesis by simp
  next
    case False
    then have "x \<notin> set (y # xs)" using "3.prems" by auto
    with False 3 show ?thesis by simp
  qed
qed

lemma queryBySizeRange_sorted_ids:
  assumes c: "consistent s" and le: "lo \<le> hi"
  shows "queryBySizeRange (invertedIndex s) lo hi =
           Inr (sort (map fileId (records_in_range s lo hi)))"
proof -
  let ?m = "sizeIndex (invertedIndex s)"
  let ?raw = "concat (map snd (filter (\<lambda>e. lo \<le> fst e \<and> fst e \<le> hi) ?m))"
  have tab: "table_ok (fileMetadataMap s) (nextFileId s)"
    and ok: "size_index_ok ?m"
    and ag: "index_agrees fileSize (fileMetadataMap s) ?m"
    using c by (simp_all add: consistent_def index_ok_def)
  have srt: "sorted_wrt (<) (map fst ?m)" and pok: "postings_ok ?m"
    using ok by (simp_all add: size_index_ok_def)
  have q: "queryBySizeRange (invertedIndex s) lo hi = Inr (remdups_adj (sort ?raw))"
    by (simp add: queryBySizeRange_def Let_def scan_range_sorted [OF srt le])
  have "set ?raw = {i. \<exists>k. lo \<le> k \<and> k \<le> hi \<and> i \<in> set (posting_at ?m k)}"
    by (rule set_concat_postings [OF pok])
  also have "\<dots> = {i. \<exists>r. map_of (fileMetadataMap s) i = Some r \<and> lo \<le> fileSize r
      \<and> fileSize r \<le> hi}"
    using ag by (auto simp: index_agrees_def)
  also have "\<dots> = set (map fileId (records_in_range s lo hi))"
    by (rule set_ids_in_range [OF tab, symmetric])
  finally have sets: "set (remdups_adj (sort ?raw)) =
      set (sort (map fileId (records_in_range s lo hi)))"
    by simp
  have "remdups_adj (sort ?raw) = sort (map fileId (records_in_range s lo hi))"
  proof (rule sorted_distinct_set_unique [OF _ _ _ _ sets])
    show "sorted (remdups_adj (sort ?raw))" by (simp add: sorted_remdups_adj)
    show "distinct (remdups_adj (sort ?raw))" by (simp add: distinct_remdups_adj_sorted)
    show "sorted (sort (map fileId (records_in_range s lo hi)))" by simp
    show "distinct (sort (map fileId (records_in_range s lo hi)))"
      using distinct_ids_in_range [OF tab] by simp
  qed
  with q show ?thesis by simp
qed

lemma map_fileId_lookup_ids:
  assumes "\<And>i. i \<in> set ids \<Longrightarrow> \<exists>r. map_of table i = Some r \<and> fileId r = i"
  shows "map fileId (lookup_ids table ids) = ids"
  using assms
proof (induction ids)
  case Nil
  then show ?case by (simp add: lookup_ids_def)
next
  case (Cons i ids)
  obtain r where "map_of table i = Some r" "fileId r = i" using Cons.prems [of i] by auto
  moreover have "map fileId (lookup_ids table ids) = ids" using Cons by simp
  ultimately show ?case by (simp add: lookup_ids_def)
qed

lemma set_lookup_ids:
  "set (lookup_ids table ids) = {r. \<exists>i \<in> set ids. map_of table i = Some r}"
  by (force simp: lookup_ids_def List.map_filter_def)

lemma lookup_in_range:
  assumes tab: "table_ok (fileMetadataMap s) (nextFileId s)"
  shows "map fileId (lookup_ids (fileMetadataMap s) (sort (map fileId (records_in_range s lo hi))))
           = sort (map fileId (records_in_range s lo hi))"
    and "set (lookup_ids (fileMetadataMap s) (sort (map fileId (records_in_range s lo hi))))
           = set (records_in_range s lo hi)"
proof -
  let ?ids = "sort (map fileId (records_in_range s lo hi))"
  have ids: "set ?ids = {i. \<exists>r. map_of (fileMetadataMap s) i = Some r \<and> lo \<le> fileSize r
      \<and> fileSize r \<le> hi}"
    using set_ids_in_range [OF tab, of lo hi] by simp
  show "map fileId (lookup_ids (fileMetadataMap s) ?ids) = ?ids"
  proof (rule map_fileId_lookup_ids)
    fix i assume "i \<in> set ?ids"
    then obtain r where "map_of (fileMetadataMap s) i = Some r" unfolding ids by blast
    then show "\<exists>r. map_of (fileMetadataMap s) i = Some r \<and> fileId r = i"
      using table_okD [OF tab] by blast
  qed
  show "set (lookup_ids (fileMetadataMap s) ?ids) = set (records_in_range s lo hi)"
  proof (intro set_eqI iffI)
    fix r assume "r \<in> set (lookup_ids (fileMetadataMap s) ?ids)"
    then obtain i where i: "i \<in> set ?ids" "map_of (fileMetadataMap s) i = Some r"
      unfolding set_lookup_ids by blast
    then obtain r' where "map_of (fileMetadataMap s) i = Some r'" "lo \<le> fileSize r'"
      "fileSize r' \<le> hi" unfolding ids by blast
    with i show "r \<in> set (records_in_range s lo hi)"
      using table_ok_in_set [OF tab, of i r] by (force simp: records_in_range_def)
  next
    fix r assume "r \<in> set (records_in_range s lo hi)"
    then obtain j where j: "(j, r) \<in> set (fileMetadataMap s)" "lo \<le> fileSize r"
      "fileSize r \<le> hi"
      by (auto simp: records_in_range_def)
    then have m: "map_of (fileMetadataMap s) j = Some r" using table_ok_in_set [OF tab] by simp
    then have "j \<in> set ?ids" unfolding ids using j by blast
    with m show "r \<in> set (lookup_ids (fileMetadataMap s) ?ids)"
      unfolding set_lookup_ids by blast
  qed
qed

text \<open>
  C4. In every state reached by \<^verbatim>\<open>addFile\<close> and \<^verbatim>\<open>removeFile\<close> calls and for all bounds
  \<open>lo \<le> hi\<close>, the size range query of the index returns the identifiers of exactly the
  records of the flat table whose size lies in \<open>[lo, hi]\<close>, both bounds included, as one
  strictly increasing sequence; \<^verbatim>\<open>queryBySizeRangeIndexed\<close> returns the records with these
  identifiers, in the same order.
\<close>

theorem size_range_query_exact:
  assumes "run new_FileSystemSimulator ops = Inr s" and "lo \<le> hi"
  shows "queryBySizeRange (invertedIndex s) lo hi =
           Inr (sort (map fileId (records_in_range s lo hi))) \<and>
         sorted_wrt (<) (sort (map fileId (records_in_range s lo hi))) \<and>
         queryBySizeRangeIndexed s lo hi =
           Inr (lookup_ids (fileMetadataMap s) (sort (map fileId (records_in_range s lo hi)))) \<and>
         map fileId (lookup_ids (fileMetadataMap s) (sort (map fileId (records_in_range s lo hi))))
           = sort (map fileId (records_in_range s lo hi)) \<and>
         set (lookup_ids (fileMetadataMap s) (sort (map fileId (records_in_range s lo hi))))
           = set (records_in_range s lo hi)"
proof -
  have c: "consistent s" by (rule consistent_reachable [OF assms(1)])
  then have tab: "table_ok (fileMetadataMap s) (nextFileId s)" by (simp add: consistent_def)
  have q: "queryBySizeRange (invertedIndex s) lo hi =
           Inr (sort (map fileId (records_in_range s lo hi)))"
    by (rule queryBySizeRange_sorted_ids [OF c assms(2)])
  have "sorted_wrt (<) (sort (map fileId (records_in_range s lo hi)))"
    using distinct_ids_in_range [OF tab, of lo hi] by (simp add: strict_sorted_iff)
  then show ?thesis
    using q lookup_in_range [OF tab, of lo hi] by (simp add: queryBySizeRangeIndexed_def)
qed

theorem size_range_query_exact_witness:
  "run new_FileSystemSimulator demo_ops = Inr demo_store \<and> (100000 :: int) \<le> 600000 \<and>
   records_in_range demo_store 100000 600000 = [demo_a, demo_b] \<and>
   queryBySizeRange (invertedIndex demo_store) 100000 600000 = Inr [1, 2] \<and>
   queryBySizeRangeIndexed demo_store 100000 600000 = Inr [demo_a, demo_b] \<and>
   (200001 :: int) \<le> 500000 \<and>
   records_in_range demo_store 200001 500000 = [demo_b] \<and>
   queryBySizeRange (invertedIndex demo_store) 200001 500000 = Inr [2] \<and>
   queryBySizeRangeIndexed demo_store 200001 500000 = Inr [demo_b]"
proof -
  have r1: "records_in_range demo_store 100000 600000 = [demo_a, demo_b]"
    by (simp add: records_in_range_def demo_store_def demo_a_def demo_b_def)
  have r2: "records_in_range demo_store 200001 500000 = [demo_b]"
    by (simp add: records_in_range_def demo_store_def demo_a_def demo_b_def)
  have l1: "lookup_ids (fileMetadataMap demo_store) [1, 2] = [demo_a, demo_b]"
    and l2: "lookup_ids (fileMetadataMap demo_store) [2] = [demo_b]"
    by (simp_all add: lookup_ids_def demo_store_def)
  have i1: "sort (map fileId [demo_a, demo_b]) = [1, 2]"
    and i2: "sort (map fileId [demo_b]) = [2]"
    by (simp_all add: demo_a_def demo_b_def)
  from size_range_query_exact [OF run_demo, of 100000 600000]
    size_range_query_exact [OF run_demo, of 200001 500000]
  show ?thesis unfolding r1 r2 i1 i2 l1 l2 by (simp add: run_demo)
qed

section \<open>Adding, querying, removing\<close>

lemma findFileNode_eq:
  "findFileNode rt fpath =
     (if fpath = [] \<or> hd fpath \<noteq> CHR ''/'' then None
      else (case node_at (path_position fpath) rt of
              None \<Rightarrow> None
            | Some node \<Rightarrow> Some (path_position fpath, node)))"
  by (cases fpath)
     (auto simp: findFileNode_def path_position_def Let_def findFileNode_loop_node_at
        split: option.splits)

lemma getOrCreatePath_position:
  "getOrCreatePath rt path = Some (root1, pos) \<Longrightarrow>
     pos = path_position path \<and> path \<noteq> [] \<and> hd path = CHR ''/''"
  by (auto simp: getOrCreatePath_eq path_position_def split: if_splits)

lemma path_position_join:
  assumes path: "path \<noteq> []" "hd path = CHR ''/''"
    and fname: "fname \<noteq> []" "CHR ''/'' \<notin> set fname"
  shows "path_position (join_path path fname) = path_position path @ [fname]"
proof -
  obtain rest where p: "path = CHR ''/'' # rest" using path by (cases path) auto
  have plain: "getline_parts [] fname = [fname]"
    using getline_parts_plain [of fname "[]"] fname by simp
  show ?thesis
  proof (cases "rest = []")
    case True
    then show ?thesis
      using plain fname(1) by (simp add: p join_path_def path_position_def)
  next
    case False
    show ?thesis
    proof (cases "last rest = CHR ''/''")
      case True
      then obtain b where rest: "rest = b @ [CHR ''/'']"
        using False by (metis append_butlast_last_id)
      have "tl (join_path path fname) = b @ CHR ''/'' # fname"
        by (simp add: p rest join_path_def)
      moreover have "path_position path = filter (\<lambda>part. part \<noteq> []) (getline_parts [] b)"
        using getline_parts_delim [of "[]" b "[]"] by (simp add: p rest path_position_def)
      ultimately show ?thesis
        using plain fname(1) by (simp add: path_position_def getline_parts_delim)
    next
      case no_slash: False
      then have "tl (join_path path fname) = rest @ CHR ''/'' # fname"
        using False by (simp add: p join_path_def)
      then show ?thesis
        using plain fname(1) by (simp add: p path_position_def getline_parts_delim)
    qed
  qed
qed

lemma join_path_valid:
  "path \<noteq> [] \<Longrightarrow> hd path = CHR ''/'' \<Longrightarrow>
     join_path path fname \<noteq> [] \<and> hd (join_path path fname) = CHR ''/''"
  by (simp add: join_path_def)

lemma queryByExtension_posting_at:
  "queryByExtension idx ext = posting_at (extensionIndex idx) ext"
  by (simp add: queryByExtension_def posting_at_def split: option.splits)

lemma queryByOwner_posting_at: "queryByOwner idx own = posting_at (ownerIndex idx) own"
  by (simp add: queryByOwner_def posting_at_def split: option.splits)

lemma lookup_ids_agrees:
  assumes "index_agrees attr table m"
  shows "set (lookup_ids table (posting_at m k)) =
           {r. (\<exists>i. map_of table i = Some r) \<and> attr r = k}"
  using assms unfolding set_lookup_ids index_agrees_def by auto

lemma queryByExtensionIndexed_set:
  "consistent s \<Longrightarrow>
     set (queryByExtensionIndexed s ext) =
       {r. (\<exists>i. map_of (fileMetadataMap s) i = Some r) \<and> extension r = ext}"
  by (simp add: queryByExtensionIndexed_def queryByExtension_posting_at consistent_def
      index_ok_def lookup_ids_agrees)

lemma queryByOwnerIndexed_set:
  "consistent s \<Longrightarrow>
     set (queryByOwnerIndexed s own) =
       {r. (\<exists>i. map_of (fileMetadataMap s) i = Some r) \<and> owner r = own}"
  by (simp add: queryByOwnerIndexed_def queryByOwner_posting_at consistent_def
      index_ok_def lookup_ids_agrees)

lemma addFile_attached:
  assumes a: "addFile s path fname ext fsize own ctime = Inr (True, s1)"
  shows "node_at (path_position path @ [fname]) (root s1) =
           Some (DirectoryNode fname False
                   (Some (new_FileMetadata s path fname ext fsize own ctime)) [])"
    and "fileMetadataMap s1 =
           AList.update (nextFileId s) (new_FileMetadata s path fname ext fsize own ctime)
             (fileMetadataMap s)"
    and "path \<noteq> []" "hd path = CHR ''/''"
proof -
  let ?r = "new_FileMetadata s path fname ext fsize own ctime"
  let ?leaf = "DirectoryNode fname False (Some ?r) []"
  from a obtain root1 pos where
    g: "getOrCreatePath (root s) path = Some (root1, pos)" and
    s1: "s1 = \<lparr>root = modify_at pos (set_child fname ?leaf) root1,
              fileMetadataMap = AList.update (nextFileId s) ?r (fileMetadataMap s),
              invertedIndex = index_addFile (invertedIndex s) ?r,
              nextFileId = nextFileId s + 1\<rparr>"
    by (auto simp: addFile_True)
  have pos: "pos = path_position path" and "path \<noteq> []" "hd path = CHR ''/''"
    using getOrCreatePath_position [OF g] by simp_all
  then show "path \<noteq> []" "hd path = CHR ''/''" by simp_all
  obtain n where n: "node_at pos root1 = Some n"
    using getOrCreatePath_props(2) [OF g] by blast
  have "node_at pos (root s1) = Some (set_child fname ?leaf n)"
    using node_at_modify_at [OF n] by (simp add: s1)
  then show "node_at (path_position path @ [fname]) (root s1) = Some ?leaf"
    by (simp add: node_at_append pos update_conv')
  show "fileMetadataMap s1 = AList.update (nextFileId s) ?r (fileMetadataMap s)"
    by (simp add: s1)
qed

lemma node_at_detach:
  assumes nm: "nodes_ok rt" and dir: "isDirectory rt"
    and n: "node_at pos rt = Some node" and nd: "\<not> isDirectory node"
  shows "node_at pos (detach pos node rt) = None"
proof -
  have pos: "pos \<noteq> []" using n nd dir by auto
  obtain parent where p: "node_at (butlast pos) rt = Some parent"
    and ch: "map_of (children parent) (last pos) = Some node"
    using node_at_parent [OF n pos] by blast
  have "nodes_ok parent" by (rule nodes_ok_node_at [OF nm p])
  then have nmf: "name node = last pos" using nodes_ok_child [OF _ ch] by simp
  have d: "detach pos node rt = modify_at (butlast pos) (erase_child (last pos)) rt"
    using pos by (simp add: detach_def nmf)
  have "node_at (butlast pos @ [last pos]) (detach pos node rt) = None"
    unfolding d node_at_append
    by (simp add: node_at_modify_at [OF p] delete_conv')
  then show ?thesis using pos by simp
qed

lemma removeFile_success:
  assumes c: "consistent s" and r: "removeFile s fpath = (True, s')"
  shows "\<exists>node fdata.
           findFileNode (root s) fpath = Some (path_position fpath, node) \<and>
           \<not> isDirectory node \<and> fileData node = Some fdata \<and>
           map_of (fileMetadataMap s) (fileId fdata) = Some fdata \<and>
           s' = \<lparr>root = detach (path_position fpath) node (root s),
                 fileMetadataMap = AList.delete (fileId fdata) (fileMetadataMap s),
                 invertedIndex = index_removeFile (invertedIndex s) fdata,
                 nextFileId = nextFileId s\<rparr> \<and>
           node_at (path_position fpath) (root s') = None"
proof -
  have tr: "tree_ok (root s) (fileMetadataMap s)" using c by (simp add: consistent_def)
  from r obtain pos node where f: "findFileNode (root s) fpath = Some (pos, node)"
    and nd: "\<not> isDirectory node"
    by (auto simp: removeFile_unfold split: option.splits if_splits)
  have pos: "pos = path_position fpath"
    using f by (auto simp: findFileNode_eq split: if_splits option.splits)
  have n: "node_at pos (root s) = Some node" by (rule findFileNode_node_at [OF f])
  have "nodes_ok node" using nodes_ok_node_at [OF _ n] tr by (simp add: tree_ok_def)
  then obtain fdata where fd: "fileData node = Some fdata"
    using nd nodes_ok_iff [of node] by auto
  have "fdata \<in> set (tree_files node)" by (rule fileData_in_tree_files [OF nd fd])
  then have "fdata \<in> set (tree_files (root s))"
    using mset_subset_eqD [OF tree_files_node_at [OF n], of fdata] by simp
  then have known: "map_of (fileMetadataMap s) (fileId fdata) = Some fdata"
    using tr by (simp add: tree_ok_def)
  have s': "s' = \<lparr>root = detach pos node (root s),
                 fileMetadataMap = AList.delete (fileId fdata) (fileMetadataMap s),
                 invertedIndex = index_removeFile (invertedIndex s) fdata,
                 nextFileId = nextFileId s\<rparr>"
    using r f nd fd by (simp add: removeFile_unfold)
  have "node_at pos (root s') = None"
    using node_at_detach [OF _ _ n nd] tr by (simp add: s' tree_ok_def)
  then show ?thesis using f nd fd known s' pos by blast
qed

lemma removeFile_twice:
  assumes c: "consistent s" and r: "removeFile s fpath = (True, s')"
  shows "removeFile s' fpath = (False, s')"
proof -
  have "node_at (path_position fpath) (root s') = None"
    using removeFile_success [OF c r] by blast
  then have "findFileNode (root s') fpath = None" by (simp add: findFileNode_eq)
  then show ?thesis by (simp add: removeFile_unfold)
qed

lemma removeFile_added:
  assumes a: "addFile s path fname ext fsize own ctime = Inr (True, s1)"
    and fname: "fname \<noteq> []" "CHR ''/'' \<notin> set fname"
  shows "fst (removeFile s1 (join_path path fname))"
    and "fileMetadataMap (snd (removeFile s1 (join_path path fname))) =
           AList.delete (nextFileId s) (fileMetadataMap s1)"
proof -
  let ?r = "new_FileMetadata s path fname ext fsize own ctime"
  let ?leaf = "DirectoryNode fname False (Some ?r) []"
  note att = addFile_attached [OF a]
  have "path_position (join_path path fname) = path_position path @ [fname]"
    by (rule path_position_join [OF att(3,4) fname])
  then have "findFileNode (root s1) (join_path path fname) =
             Some (path_position path @ [fname], ?leaf)"
    using att(1) join_path_valid [OF att(3,4), of fname] by (simp add: findFileNode_eq)
  then show "fst (removeFile s1 (join_path path fname))"
    and "fileMetadataMap (snd (removeFile s1 (join_path path fname))) =
           AList.delete (nextFileId s) (fileMetadataMap s1)"
    by (simp_all add: removeFile_unfold)
qed

lemma in_no_posting_if_unknown:
  assumes ok: "postings_ok m" and ag: "index_agrees attr table m"
    and i: "map_of table i = None"
  shows "in_no_posting m i"
  unfolding in_no_posting_def
proof (intro ballI, clarify)
  fix k l
  assume kl: "(k, l) \<in> set m" and "i \<in> set l"
  then have "map_of m k = Some l" using postings_ok_in_set [OF ok] by simp
  then have "posting_at m k = l" by (simp add: posting_at_def)
  then have "i \<in> set (posting_at m k)" using \<open>i \<in> set l\<close> by simp
  then show False using ag i by (simp add: index_agrees_def)
qed

lemma unlisted_if_unknown:
  assumes c: "consistent s" and i: "map_of (fileMetadataMap s) i = None"
  shows "in_no_posting (extensionIndex (invertedIndex s)) i"
    and "in_no_posting (sizeIndex (invertedIndex s)) i"
    and "in_no_posting (ownerIndex (invertedIndex s)) i"
    and "in_no_posting (timeIndex (invertedIndex s)) i"
proof -
  have idx: "index_ok (invertedIndex s) (fileMetadataMap s)"
    using c by (simp add: consistent_def)
  show "in_no_posting (extensionIndex (invertedIndex s)) i"
    using idx
    by (intro in_no_posting_if_unknown [where attr = extension, OF _ _ i])
       (simp_all add: index_ok_def)
  show "in_no_posting (sizeIndex (invertedIndex s)) i"
    using idx
    by (intro in_no_posting_if_unknown [where attr = fileSize, OF _ _ i])
       (simp_all add: index_ok_def size_index_ok_def)
  show "in_no_posting (ownerIndex (invertedIndex s)) i"
    using idx
    by (intro in_no_posting_if_unknown [where attr = owner, OF _ _ i])
       (simp_all add: index_ok_def)
  show "in_no_posting (timeIndex (invertedIndex s)) i"
    using idx
    by (intro in_no_posting_if_unknown [where attr = createTime, OF _ _ i])
       (simp_all add: index_ok_def)
qed

lemma add_small:
  "addFile new_FileSystemSimulator ''/docs'' ''a.txt'' ''.txt'' 5 ''u1'' ''2024-01-15''
     = Inr (True, small_store)"
  by code_simp

lemma new_small:
  "new_FileMetadata new_FileSystemSimulator ''/docs'' ''a.txt'' ''.txt'' 5 ''u1'' ''2024-01-15''
     = small_a"
  by code_simp

lemma remove_small: "removeFile small_store ''/docs/a.txt'' = (True, emptied_store)"
  by code_simp

lemma run_Nil: "run new_FileSystemSimulator [] = Inr new_FileSystemSimulator"
  by simp

lemma known_ids_only:
  assumes tab: "table_ok (fileMetadataMap s) (nextFileId s)"
    and n: "map_of (fileMetadataMap s) n = None"
    and r: "\<exists>i. map_of (fileMetadataMap s) i = Some r"
  shows "fileId r \<noteq> n"
  using table_okD [OF tab] n r by force

lemma removed_id_not_returned:
  assumes c: "consistent s" and n: "map_of (fileMetadataMap s) n = None"
  shows "n \<notin> fileId ` set (queryByExtensionIndexed s ext)"
    and "n \<notin> fileId ` set (queryByOwnerIndexed s own)"
proof -
  have tab: "table_ok (fileMetadataMap s) (nextFileId s)" using c by (simp add: consistent_def)
  show "n \<notin> fileId ` set (queryByExtensionIndexed s ext)"
    using known_ids_only [OF tab n] by (auto simp: queryByExtensionIndexed_set [OF c])
  show "n \<notin> fileId ` set (queryByOwnerIndexed s own)"
    using known_ids_only [OF tab n] by (auto simp: queryByOwnerIndexed_set [OF c])
qed

lemma removed_id_not_in_range:
  assumes c: "consistent s" and n: "map_of (fileMetadataMap s) n = None" and le: "lo \<le> hi"
  shows "\<exists>rs. queryBySizeRangeIndexed s lo hi = Inr rs \<and> n \<notin> fileId ` set rs"
proof -
  have tab: "table_ok (fileMetadataMap s) (nextFileId s)" using c by (simp add: consistent_def)
  let ?rs = "lookup_ids (fileMetadataMap s) (sort (map fileId (records_in_range s lo hi)))"
  have q: "queryBySizeRangeIndexed s lo hi = Inr ?rs"
    using queryBySizeRange_sorted_ids [OF c le] by (simp add: queryBySizeRangeIndexed_def)
  have "fileId r \<noteq> n" if "r \<in> set ?rs" for r
  proof -
    have "\<exists>i. map_of (fileMetadataMap s) i = Some r"
      using that unfolding set_lookup_ids by blast
    then show ?thesis by (rule known_ids_only [OF tab n])
  qed
  then have "n \<notin> fileId ` set ?rs" by blast
  with q show ?thesis by blast
qed

lemma added_record_in_range:
  assumes c: "consistent s" and r: "map_of (fileMetadataMap s) i = Some r"
    and le: "lo \<le> fileSize r" "fileSize r \<le> hi"
  shows "\<exists>rs. queryBySizeRangeIndexed s lo hi = Inr rs \<and> r \<in> set rs"
proof -
  have tab: "table_ok (fileMetadataMap s) (nextFileId s)" using c by (simp add: consistent_def)
  let ?rs = "lookup_ids (fileMetadataMap s) (sort (map fileId (records_in_range s lo hi)))"
  have "lo \<le> hi" using le by simp
  then have q: "queryBySizeRangeIndexed s lo hi = Inr ?rs"
    using queryBySizeRange_sorted_ids [OF c] by (simp add: queryBySizeRangeIndexed_def)
  have "(i, r) \<in> set (fileMetadataMap s)" using r table_ok_in_set [OF tab] by simp
  then have "r \<in> set (records_in_range s lo hi)"
    using le by (force simp: records_in_range_def)
  then have "r \<in> set ?rs" by (simp add: lookup_in_range(2) [OF tab])
  with q show ?thesis by blast
qed

text \<open>
  C3, as the code has it. In every state reached by \<^verbatim>\<open>addFile\<close> and \<^verbatim>\<open>removeFile\<close>
  calls, after a successful \<^verbatim>\<open>addFile\<close> the indexed queries by the file's extension, by
  its owner and by a size range that holds its size return the new record. If moreover
  the file name is not empty and has no \<^verbatim>\<open>/\<close> in it, a following \<^verbatim>\<open>removeFile\<close> of the
  full path succeeds, and the same queries then return no record with the new identifier.
\<close>

theorem add_query_remove_roundtrip:
  assumes "run new_FileSystemSimulator ops = Inr s"
    and "addFile s path fname ext fsize own ctime = Inr (True, s1)"
  shows "new_FileMetadata s path fname ext fsize own ctime \<in> set (queryByExtensionIndexed s1 ext) \<and>
     new_FileMetadata s path fname ext fsize own ctime \<in> set (queryByOwnerIndexed s1 own) \<and>
     (lo \<le> fsize \<and> fsize \<le> hi \<longrightarrow>
        (\<exists>rs. queryBySizeRangeIndexed s1 lo hi = Inr rs \<and>
              new_FileMetadata s path fname ext fsize own ctime \<in> set rs)) \<and>
     fileId (new_FileMetadata s path fname ext fsize own ctime) = nextFileId s \<and>
     (fname \<noteq> [] \<and> CHR ''/'' \<notin> set fname \<longrightarrow>
        fst (removeFile s1 (join_path path fname)) \<and>
        nextFileId s \<notin>
          fileId ` set (queryByExtensionIndexed (snd (removeFile s1 (join_path path fname))) ext) \<and>
        nextFileId s \<notin>
          fileId ` set (queryByOwnerIndexed (snd (removeFile s1 (join_path path fname))) own) \<and>
        (lo \<le> hi \<longrightarrow>
           (\<exists>rs. queryBySizeRangeIndexed (snd (removeFile s1 (join_path path fname))) lo hi = Inr rs \<and>
                 nextFileId s \<notin> fileId ` set rs)))"
proof -
  let ?r = "new_FileMetadata s path fname ext fsize own ctime"
  have c: "consistent s" by (rule consistent_reachable [OF assms(1)])
  have c1: "consistent s1" by (rule consistent_addFile [OF c assms(2)])
  note att = addFile_attached [OF assms(2)]
  have known: "map_of (fileMetadataMap s1) (nextFileId s) = Some ?r"
    by (simp add: att(2) update_conv')
  have attrs: "extension ?r = ext" "owner ?r = own" "fileSize ?r = fsize"
    by (simp_all add: new_FileMetadata_def)
  have q1: "?r \<in> set (queryByExtensionIndexed s1 ext)"
    using known attrs by (auto simp: queryByExtensionIndexed_set [OF c1])
  have q2: "?r \<in> set (queryByOwnerIndexed s1 own)"
    using known attrs by (auto simp: queryByOwnerIndexed_set [OF c1])
  have q3: "\<exists>rs. queryBySizeRangeIndexed s1 lo hi = Inr rs \<and> ?r \<in> set rs"
    if "lo \<le> fsize" "fsize \<le> hi"
    using added_record_in_range [OF c1 known, of lo hi] that by (simp add: attrs)
  have rem: "fst (removeFile s1 (join_path path fname)) \<and>
        nextFileId s \<notin>
          fileId ` set (queryByExtensionIndexed (snd (removeFile s1 (join_path path fname))) ext) \<and>
        nextFileId s \<notin>
          fileId ` set (queryByOwnerIndexed (snd (removeFile s1 (join_path path fname))) own) \<and>
        (lo \<le> hi \<longrightarrow>
           (\<exists>rs. queryBySizeRangeIndexed (snd (removeFile s1 (join_path path fname))) lo hi = Inr rs \<and>
                 nextFileId s \<notin> fileId ` set rs))"
    if fname: "fname \<noteq> []" "CHR ''/'' \<notin> set fname"
  proof -
    let ?s2 = "snd (removeFile s1 (join_path path fname))"
    note rm = removeFile_added [OF assms(2) fname]
    have c2: "consistent ?s2" by (rule consistent_removeFile [OF c1])
    have gone: "map_of (fileMetadataMap ?s2) (nextFileId s) = None"
      by (simp add: rm(2) delete_conv')
    show ?thesis
      using rm(1) removed_id_not_returned [OF c2 gone] removed_id_not_in_range [OF c2 gone]
      by simp
  qed
  show ?thesis using q1 q2 q3 rem by simp
qed

theorem add_query_remove_roundtrip_witness:
  "run new_FileSystemSimulator [] = Inr new_FileSystemSimulator \<and>
   addFile new_FileSystemSimulator ''/docs'' ''a.txt'' ''.txt'' 5 ''u1'' ''2024-01-15''
     = Inr (True, small_store) \<and>
   small_a \<in> set (queryByExtensionIndexed small_store ''.txt'') \<and>
   small_a \<in> set (queryByOwnerIndexed small_store ''u1'') \<and>
   (1 :: int) \<le> 5 \<and> (5 :: int) \<le> 10 \<and>
   queryBySizeRangeIndexed small_store 1 10 = Inr [small_a] \<and>
   fileId small_a = 1 \<and>
   ''a.txt'' \<noteq> [] \<and> CHR ''/'' \<notin> set ''a.txt'' \<and>
   removeFile small_store (join_path ''/docs'' ''a.txt'') = (True, emptied_store) \<and>
   1 \<notin> fileId ` set (queryByExtensionIndexed emptied_store ''.txt'') \<and>
   1 \<notin> fileId ` set (queryByOwnerIndexed emptied_store ''u1'') \<and>
   queryBySizeRangeIndexed emptied_store 1 10 = Inr []"
proof -
  have j: "join_path ''/docs'' ''a.txt'' = ''/docs/a.txt''" by (simp add: join_path_def)
  have n: "nextFileId new_FileSystemSimulator = 1" by (simp add: new_FileSystemSimulator_def)
  have r1: "queryBySizeRangeIndexed small_store 1 10 = Inr [small_a]" by code_simp
  have r2: "queryBySizeRangeIndexed emptied_store 1 10 = Inr []" by code_simp
  from add_query_remove_roundtrip [OF run_Nil add_small, of 1 10]
  have "small_a \<in> set (queryByExtensionIndexed small_store ''.txt'')"
    "small_a \<in> set (queryByOwnerIndexed small_store ''u1'')"
    "fileId small_a = 1"
    "1 \<notin> fileId ` set (queryByExtensionIndexed emptied_store ''.txt'')"
    "1 \<notin> fileId ` set (queryByOwnerIndexed emptied_store ''u1'')"
    unfolding new_small j remove_small n by simp_all
  then show ?thesis
    using r1 r2 add_small remove_small by (simp add: j)
qed

text \<open>C3 as stated fails for a file name with a delimiter in it: the remove of the
  recorded full path finds no node, and the query goes on returning the identifier.\<close>

theorem add_query_remove_counterexample:
  "addFile new_FileSystemSimulator ''/'' ''docs/a.jpg'' ''.jpg'' 100 ''u1'' ''2024-01-15''
     = Inr (True, nested_name_store) \<and>
   join_path ''/'' ''docs/a.jpg'' = ''/docs/a.jpg'' \<and>
   snd (removeFile nested_name_store ''/docs/a.jpg'') = nested_name_store \<and>
   map fileId (queryByExtensionIndexed (snd (removeFile nested_name_store ''/docs/a.jpg'')) ''.jpg'')
     = [1]"
  by code_simp

lemma run_small:
  "run new_FileSystemSimulator [AddFile ''/docs'' ''a.txt'' ''.txt'' 5 ''u1'' ''2024-01-15'']
     = Inr small_store"
  by code_simp

lemma removeFile_result:
  "fst (removeFile s fpath) \<longleftrightarrow>
     (\<exists>pos node. findFileNode (root s) fpath = Some (pos, node) \<and> \<not> isDirectory node)"
  by (auto simp: removeFile_unfold split: option.splits)

lemma removeFile_failed: "\<not> fst (removeFile s fpath) \<Longrightarrow> snd (removeFile s fpath) = s"
  by (auto simp: removeFile_unfold split: option.splits if_splits)

lemma removed_not_in_tree:
  assumes tr: "tree_ok rt table" and n: "node_at pos rt = Some node"
    and nd: "\<not> isDirectory node" and fd: "fileData node = Some fdata"
  shows "fdata \<notin> set (tree_files (detach pos node rt))"
proof
  assume x: "fdata \<in> set (tree_files (detach pos node rt))"
  have y: "fdata \<in> set (tree_files node)" by (rule fileData_in_tree_files [OF nd fd])
  have d: "distinct (map fileId (tree_files rt))" using tr by (simp add: tree_ok_def)
  show False
    using disjoint_ids_mset_subset [OF tree_ok_detach(3) [OF tr n nd] d x y] by simp
qed

text \<open>
  C6, as the code has it. In every state reached by \<^verbatim>\<open>addFile\<close> and \<^verbatim>\<open>removeFile\<close>
  calls, \<^verbatim>\<open>removeFile\<close> returns \<open>true\<close> exactly when the path resolves to a node that is
  not a directory, and a call that returns \<open>false\<close> changes nothing. A call that returns
  \<open>true\<close> leaves the identifier of the node's record in no posting list of the four
  indexes and not in the flat table, and the node no longer in the tree; the same call
  again returns \<open>false\<close> and changes nothing. After a successful \<^verbatim>\<open>addFile\<close> under a
  name that is not empty and has no \<^verbatim>\<open>/\<close> in it, \<^verbatim>\<open>removeFile\<close> of the full path
  returns \<open>true\<close>.
\<close>

theorem removeFile_contract:
  assumes "run new_FileSystemSimulator ops = Inr s"
  shows "(fst (removeFile s fpath) \<longleftrightarrow>
            (\<exists>pos node. findFileNode (root s) fpath = Some (pos, node) \<and> \<not> isDirectory node)) \<and>
     (\<not> fst (removeFile s fpath) \<longrightarrow> snd (removeFile s fpath) = s) \<and>
     (removeFile s fpath = (True, s') \<longrightarrow>
        (\<exists>node fdata.
            findFileNode (root s) fpath = Some (path_position fpath, node) \<and>
            fileData node = Some fdata \<and>
            map_of (fileMetadataMap s) (fileId fdata) = Some fdata \<and>
            in_no_posting (extensionIndex (invertedIndex s')) (fileId fdata) \<and>
            in_no_posting (sizeIndex (invertedIndex s')) (fileId fdata) \<and>
            in_no_posting (ownerIndex (invertedIndex s')) (fileId fdata) \<and>
            in_no_posting (timeIndex (invertedIndex s')) (fileId fdata) \<and>
            map_of (fileMetadataMap s') (fileId fdata) = None \<and>
            node_at (path_position fpath) (root s') = None \<and>
            fdata \<notin> set (tree_files (root s'))) \<and>
        removeFile s' fpath = (False, s')) \<and>
     (addFile s path fname ext fsize own ctime = Inr (True, s1) \<and>
      fname \<noteq> [] \<and> CHR ''/'' \<notin> set fname \<longrightarrow>
        fst (removeFile s1 (join_path path fname)))"
proof -
  have c: "consistent s" by (rule consistent_reachable [OF assms])
  have tr: "tree_ok (root s) (fileMetadataMap s)" using c by (simp add: consistent_def)
  have success: "(\<exists>node fdata.
            findFileNode (root s) fpath = Some (path_position fpath, node) \<and>
            fileData node = Some fdata \<and>
            map_of (fileMetadataMap s) (fileId fdata) = Some fdata \<and>
            in_no_posting (extensionIndex (invertedIndex s')) (fileId fdata) \<and>
            in_no_posting (sizeIndex (invertedIndex s')) (fileId fdata) \<and>
            in_no_posting (ownerIndex (invertedIndex s')) (fileId fdata) \<and>
            in_no_posting (timeIndex (invertedIndex s')) (fileId fdata) \<and>
            map_of (fileMetadataMap s') (fileId fdata) = None \<and>
            node_at (path_position fpath) (root s') = None \<and>
            fdata \<notin> set (tree_files (root s'))) \<and>
        removeFile s' fpath = (False, s')"
    if r: "removeFile s fpath = (True, s')"
  proof -
    from removeFile_success [OF c r] obtain node fdata where
      f: "findFileNode (root s) fpath = Some (path_position fpath, node)" and
      nd: "\<not> isDirectory node" and fd: "fileData node = Some fdata" and
      known: "map_of (fileMetadataMap s) (fileId fdata) = Some fdata" and
      s': "s' = \<lparr>root = detach (path_position fpath) node (root s),
                 fileMetadataMap = AList.delete (fileId fdata) (fileMetadataMap s),
                 invertedIndex = index_removeFile (invertedIndex s) fdata,
                 nextFileId = nextFileId s\<rparr>" and
      gone: "node_at (path_position fpath) (root s') = None"
      by blast
    have "consistent (snd (removeFile s fpath))" by (rule consistent_removeFile [OF c])
    then have c': "consistent s'" by (simp add: r)
    have erased: "map_of (fileMetadataMap s') (fileId fdata) = None"
      by (simp add: s' delete_conv')
    note unl = unlisted_if_unknown [OF c' erased]
    have n: "node_at (path_position fpath) (root s) = Some node"
      by (rule findFileNode_node_at [OF f])
    have "fdata \<notin> set (tree_files (root s'))"
      using removed_not_in_tree [OF tr n nd fd] by (simp add: s')
    moreover have "removeFile s' fpath = (False, s')" by (rule removeFile_twice [OF c r])
    ultimately show ?thesis using f fd known unl erased gone by blast
  qed
  have added: "fst (removeFile s1 (join_path path fname))"
    if "addFile s path fname ext fsize own ctime = Inr (True, s1)"
      "fname \<noteq> []" "CHR ''/'' \<notin> set fname"
    using removeFile_added(1) [OF that] .
  show ?thesis
    using removeFile_result [of s fpath] removeFile_failed [of s fpath] success added
    by blast
qed

theorem removeFile_contract_witness:
  "run new_FileSystemSimulator [AddFile ''/docs'' ''a.txt'' ''.txt'' 5 ''u1'' ''2024-01-15'']
     = Inr small_store \<and>
   removeFile small_store ''/docs'' = (False, small_store) \<and>
   removeFile small_store ''/docs/b.txt'' = (False, small_store) \<and>
   removeFile small_store ''/docs/a.txt'' = (True, emptied_store) \<and>
   in_no_posting (extensionIndex (invertedIndex emptied_store)) 1 \<and>
   map_of (fileMetadataMap emptied_store) 1 = None \<and>
   node_at [''docs'', ''a.txt''] (root emptied_store) = None \<and>
   removeFile emptied_store ''/docs/a.txt'' = (False, emptied_store) \<and>
   addFile new_FileSystemSimulator ''/docs'' ''a.txt'' ''.txt'' 5 ''u1'' ''2024-01-15''
     = Inr (True, small_store) \<and>
   fst (removeFile small_store (join_path ''/docs'' ''a.txt''))"
proof -
  have d: "removeFile small_store ''/docs'' = (False, small_store)" by code_simp
  have b: "removeFile small_store ''/docs/b.txt'' = (False, small_store)" by code_simp
  have e: "in_no_posting (extensionIndex (invertedIndex emptied_store)) 1"
    "map_of (fileMetadataMap emptied_store) 1 = None"
    "node_at [''docs'', ''a.txt''] (root emptied_store) = None"
    by (simp_all add: emptied_store_def in_no_posting_def)
  have twice: "removeFile emptied_store ''/docs/a.txt'' = (False, emptied_store)"
    using removeFile_contract [OF run_small, of "''/docs/a.txt''" emptied_store]
    by (simp add: remove_small)
  have added: "fst (removeFile small_store (join_path ''/docs'' ''a.txt''))"
    using removeFile_contract [OF run_Nil, of _ _ "''/docs''" "''a.txt''" "''.txt''" 5 "''u1''"
        "''2024-01-15''" small_store]
    by (simp add: add_small)
  show ?thesis using d b e twice added by (simp add: run_small remove_small add_small)
qed

text \<open>C6 as stated fails for the full path recorded for a file whose name has a
  delimiter in it: the first remove of that path already returns \<open>false\<close>.\<close>

theorem removeFile_contract_counterexample:
  "addFile new_FileSystemSimulator ''/'' ''docs/a.jpg'' ''.jpg'' 100 ''u1'' ''2024-01-15''
     = Inr (True, nested_name_store) \<and>
   map (fullPath \<circ> snd) (fileMetadataMap nested_name_store) = [''/docs/a.jpg''] \<and>
   removeFile nested_name_store ''/docs/a.jpg'' = (False, nested_name_store)"
  by code_simp

section \<open>Adding a file twice\<close>

lemma run_first:
  "run new_FileSystemSimulator [AddFile ''/pics'' ''a.jpg'' ''.jpg'' 100 ''u1'' ''2024-01-15'']
     = Inr first_store"
  by code_simp

lemma add_second:
  "addFile first_store ''/pics'' ''a.jpg'' ''.jpg'' 200 ''u1'' ''2024-01-16''
     = Inr (True, overwrite_store)"
  by code_simp

lemma run_overwrite: "run new_FileSystemSimulator overwrite_ops = Inr overwrite_store"
  by code_simp

text \<open>
  C1, at the input where the code breaks it: after the same path and name have been
  added twice, the traversal finds the second record only, and the indexed query
  returns both.
\<close>

theorem baseline_and_indexed_differ:
  "run new_FileSystemSimulator overwrite_ops = Inr overwrite_store \<and>
   map fileId (queryByExtensionTraditional overwrite_store ''.jpg'') = [2] \<and>
   map fileId (queryByExtensionIndexed overwrite_store ''.jpg'') = [1, 2]"
  by code_simp

text \<open>
  C5, at the input where the code breaks it: with one file of size 5 in the store, the
  scan for the bounds 6 and 4 starts at \<^verbatim>\<open>end()\<close>, which is not \<^verbatim>\<open>upper_bound(4)\<close>, and
  reads past the end of the size index.
\<close>

theorem size_range_scan_past_end:
  "run new_FileSystemSimulator [AddFile ''/docs'' ''a.txt'' ''.txt'' 5 ''u1'' ''2024-01-15'']
     = Inr small_store \<and>
   map_lower_bound (sizeIndex (invertedIndex small_store)) 6 = 1 \<and>
   map_upper_bound (sizeIndex (invertedIndex small_store)) 4 = 0 \<and>
   queryBySizeRange (invertedIndex small_store) 6 4 = Inl IteratorPastEnd \<and>
   queryBySizeRangeIndexed small_store 6 4 = Inl IteratorPastEnd"
  by code_simp

section \<open>Replacing a file node\<close>

lemma set_child_same: "map_of (children t) k = Some c \<Longrightarrow> set_child k c t = t"
  by (cases t) (simp add: set_child_def update_triv)

lemma getOrCreatePath_loop_existing:
  "node_at (filter (\<lambda>part. part \<noteq> []) parts) t = Some n \<Longrightarrow> getOrCreatePath_loop parts t = t"
proof (induction parts arbitrary: t)
  case Nil
  then show ?case by simp
next
  case (Cons part parts)
  show ?case
  proof (cases "part = []")
    case True
    then show ?thesis using Cons by simp
  next
    case False
    then obtain c where c: "map_of (children t) part = Some c"
      and n: "node_at (filter (\<lambda>part. part \<noteq> []) parts) c = Some n"
      using Cons.prems by (auto split: option.splits)
    show ?thesis using False c Cons.IH [OF n] by (simp add: set_child_same)
  qed
qed

lemma getOrCreatePath_existing:
  assumes g: "getOrCreatePath rt path = Some (root1, pos)" and n: "node_at pos rt = Some n"
  shows "root1 = rt"
  using assms
  by (auto simp: getOrCreatePath_def Let_def getOrCreatePath_loop_existing split: if_splits)

lemma tree_files_replace:
  assumes n: "node_at pos t = Some n" and old: "map_of (children n) k = Some old"
  shows "mset (tree_files (modify_at pos (set_child k c) t)) + mset (tree_files old) =
           mset (tree_files t) + mset (tree_files c)"
proof (rule multiset_eqI)
  fix a
  have e1: "count (mset (tree_files (modify_at pos (set_child k c) t))) a
              + count (mset (tree_files n)) a =
            count (mset (tree_files t)) a + count (mset (tree_files (set_child k c n))) a"
    using arg_cong [OF tree_files_modify_at [OF n, of "set_child k c"], of "\<lambda>m. count m a"]
    by simp
  have e2: "count (mset (tree_files (set_child k c n))) a + count (mset (tree_files old)) a =
            count (mset (tree_files n)) a + count (mset (tree_files c)) a"
    using arg_cong [OF tree_files_set_child_old [OF old, of c], of "\<lambda>m. count m a"] by simp
  show "count (mset (tree_files (modify_at pos (set_child k c) t)) + mset (tree_files old)) a =
        count (mset (tree_files t) + mset (tree_files c)) a"
    using e1 e2 by simp
qed

lemma fold_traverse_children:
  assumes "\<And>k c acc. (k, c) \<in> set chs \<Longrightarrow>
             traverseAndFilter c visit acc = fold visit (tree_files c) acc"
  shows "fold (\<lambda>(k, child) acc'. traverseAndFilter child visit acc') chs acc =
           fold visit (concat (map (\<lambda>(k, child). tree_files child) chs)) acc"
  using assms
proof (induction chs arbitrary: acc)
  case Nil
  then show ?case by simp
next
  case (Cons e chs)
  obtain k c where e: "e = (k, c)" by (cases e)
  have "traverseAndFilter c visit acc = fold visit (tree_files c) acc"
    using Cons.prems [of k c acc] by (simp add: e)
  moreover have "fold (\<lambda>(k, child) acc'. traverseAndFilter child visit acc') chs acc' =
           fold visit (concat (map (\<lambda>(k, child). tree_files child) chs)) acc'" for acc'
  proof (rule Cons.IH)
    fix k' c' acc''
    assume "(k', c') \<in> set chs"
    then show "traverseAndFilter c' visit acc'' = fold visit (tree_files c') acc''"
      using Cons.prems [of k' c' acc''] by simp
  qed
  ultimately show ?case by (simp add: e)
qed

lemma traverseAndFilter_fold:
  "traverseAndFilter n visit acc = fold visit (tree_files n) acc"
proof (induction n arbitrary: acc rule: tree_files.induct)
  case (1 nm isDir fdata chs)
  have "fold (\<lambda>(k, child) acc'. traverseAndFilter child visit acc') chs acc' =
           fold visit (concat (map (\<lambda>(k, child). tree_files child) chs)) acc'" for acc'
    using "1.IH" by (intro fold_traverse_children) auto
  then show ?case by (simp split: option.splits)
qed

lemma fold_collect:
  "fold (\<lambda>file result. if P file then result @ [file] else result) xs acc = acc @ filter P xs"
  by (induction xs arbitrary: acc) simp_all

lemma queryByExtensionTraditional_filter:
  "queryByExtensionTraditional s ext = filter (\<lambda>file. extension file = ext) (tree_files (root s))"
  by (simp add: queryByExtensionTraditional_def traverseAndFilter_fold fold_collect)

lemma length_update_new: "map_of al k = None \<Longrightarrow> length (AList.update k v al) = Suc (length al)"
  by (induction al) (auto split: if_splits)

lemma overwritten_not_in_tree:
  assumes tr: "tree_ok (root s) (fileMetadataMap s)"
    and tab: "table_ok (fileMetadataMap s) (nextFileId s)"
    and n: "node_at pos (root s) = Some n" and old: "map_of (children n) k = Some old"
    and r1: "r1 \<in> set (tree_files old)" and rn: "fileId rnew = nextFileId s"
    and x: "x \<in> set (tree_files (modify_at pos (set_child k (DirectoryNode k False (Some rnew) []))
                (root s)))"
  shows "fileId x \<noteq> fileId r1"
proof
  assume same: "fileId x = fileId r1"
  let ?t' = "modify_at pos (set_child k (DirectoryNode k False (Some rnew) [])) (root s)"
  have d: "distinct (map fileId (tree_files (root s)))"
    and known: "\<And>r. r \<in> set (tree_files (root s)) \<Longrightarrow>
                  map_of (fileMetadataMap s) (fileId r) = Some r"
    using tr by (simp_all add: tree_ok_def)
  have below: "fileId r < nextFileId s" if "r \<in> set (tree_files (root s))" for r
    using table_okD [OF tab known [OF that]] by simp
  have "nextFileId s \<notin> fileId ` set (tree_files (root s))" using below by force
  then have d': "distinct (map fileId (rnew # tree_files (root s)))" using d rn by simp
  have eq: "mset (tree_files ?t') + mset (tree_files old) = mset (rnew # tree_files (root s))"
    using tree_files_replace [OF n old, of "DirectoryNode k False (Some rnew) []"] by simp
  then have "mset (tree_files ?t') + mset (tree_files old) \<subseteq># mset (rnew # tree_files (root s))"
    by simp
  from disjoint_ids_mset_subset [OF this d' x r1] same show False by simp
qed

text \<open>
  C10. In a state reached by \<^verbatim>\<open>addFile\<close> and \<^verbatim>\<open>removeFile\<close> calls in which the node of
  \<open>path\<close> has a file node under the key \<open>fname\<close>, a successful \<^verbatim>\<open>addFile\<close> of the same
  path and name puts the new file node in its place and leaves the record of the earlier
  node where it was: in the flat table, in the posting list of each of the four indexes
  that is keyed by its attribute value, and so in the results of the three indexed
  queries: by its extension, by its owner, and by every size range that holds its size.
  \<^verbatim>\<open>getTotalFiles\<close> grows by one and counts both records. The traversal of the tree,
  \<^verbatim>\<open>traverseAndFilter\<close>, visits the new record, which \<^verbatim>\<open>queryByExtensionTraditional\<close>
  returns for its extension, and visits neither the earlier record nor any record with the
  earlier identifier, so that \<^verbatim>\<open>queryByExtensionTraditional\<close> returns it for no extension.
\<close>

theorem overwrite_keeps_earlier_record:
  assumes "run new_FileSystemSimulator ops = Inr s"
    and "node_at (path_position path @ [fname]) (root s) = Some old"
    and "\<not> isDirectory old" and "fileData old = Some r1"
    and "addFile s path fname ext fsize own ctime = Inr (True, s')"
  shows "map_of (fileMetadataMap s') (fileId r1) = Some r1 \<and>
     in_exactly_one (extensionIndex (invertedIndex s')) (extension r1) (fileId r1) \<and>
     in_exactly_one (sizeIndex (invertedIndex s')) (fileSize r1) (fileId r1) \<and>
     in_exactly_one (ownerIndex (invertedIndex s')) (owner r1) (fileId r1) \<and>
     in_exactly_one (timeIndex (invertedIndex s')) (createTime r1) (fileId r1) \<and>
     r1 \<in> set (queryByExtensionIndexed s' (extension r1)) \<and>
     r1 \<in> set (queryByOwnerIndexed s' (owner r1)) \<and>
     (lo \<le> fileSize r1 \<and> fileSize r1 \<le> hi \<longrightarrow>
        (\<exists>rs. queryBySizeRangeIndexed s' lo hi = Inr rs \<and> r1 \<in> set rs)) \<and>
     map_of (fileMetadataMap s') (nextFileId s) =
       Some (new_FileMetadata s path fname ext fsize own ctime) \<and>
     fileId r1 \<noteq> nextFileId s \<and>
     getTotalFiles s' = getTotalFiles s + 1 \<and>
     node_at (path_position path @ [fname]) (root s') =
       Some (DirectoryNode fname False
               (Some (new_FileMetadata s path fname ext fsize own ctime)) []) \<and>
     new_FileMetadata s path fname ext fsize own ctime \<in> set (tree_files (root s')) \<and>
     r1 \<notin> set (tree_files (root s')) \<and>
     new_FileMetadata s path fname ext fsize own ctime
       \<in> set (traverseAndFilter (root s') (\<lambda>file result. result @ [file]) []) \<and>
     new_FileMetadata s path fname ext fsize own ctime
       \<in> set (queryByExtensionTraditional s' ext) \<and>
     r1 \<notin> set (traverseAndFilter (root s') (\<lambda>file result. result @ [file]) []) \<and>
     r1 \<notin> set (queryByExtensionTraditional s' (extension r1)) \<and>
     fileId r1 \<notin> fileId ` set (queryByExtensionTraditional s' e)"
proof -
  let ?r = "new_FileMetadata s path fname ext fsize own ctime"
  let ?leaf = "DirectoryNode fname False (Some ?r) []"
  let ?pos = "path_position path"
  have c: "consistent s" by (rule consistent_reachable [OF assms(1)])
  have c': "consistent s'" by (rule consistent_addFile [OF c assms(5)])
  have tab: "table_ok (fileMetadataMap s) (nextFileId s)"
    and tr: "tree_ok (root s) (fileMetadataMap s)"
    using c by (simp_all add: consistent_def)
  have idx': "index_ok (invertedIndex s') (fileMetadataMap s')"
    using c' by (simp add: consistent_def)
  note att = addFile_attached [OF assms(5)]
  have r1_old: "r1 \<in> set (tree_files old)"
    by (rule fileData_in_tree_files [OF assms(3,4)])
  then have "r1 \<in> set (tree_files (root s))"
    using mset_subset_eqD [OF tree_files_node_at [OF assms(2)], of r1] by simp
  then have known: "map_of (fileMetadataMap s) (fileId r1) = Some r1"
    using tr by (simp add: tree_ok_def)
  then have lt: "fileId r1 < nextFileId s" using table_okD [OF tab] by blast
  then have ne: "fileId r1 \<noteq> nextFileId s" by simp
  have known': "map_of (fileMetadataMap s') (fileId r1) = Some r1"
    using known ne by (simp add: att(2) update_conv')
  have new': "map_of (fileMetadataMap s') (nextFileId s) = Some ?r"
    by (simp add: att(2) update_conv')
  have total: "getTotalFiles s' = getTotalFiles s + 1"
    using length_update_new [OF table_ok_fresh [OF tab]] by (simp add: getTotalFiles_def att(2))
  have e1: "in_exactly_one (extensionIndex (invertedIndex s')) (extension r1) (fileId r1)"
    using idx' by (intro in_exactly_one_if_agrees [OF _ _ known']) (simp_all add: index_ok_def)
  have e2: "in_exactly_one (sizeIndex (invertedIndex s')) (fileSize r1) (fileId r1)"
    using idx'
    by (intro in_exactly_one_if_agrees [OF _ _ known'])
       (simp_all add: index_ok_def size_index_ok_def)
  have e3: "in_exactly_one (ownerIndex (invertedIndex s')) (owner r1) (fileId r1)"
    using idx' by (intro in_exactly_one_if_agrees [OF _ _ known']) (simp_all add: index_ok_def)
  have e4: "in_exactly_one (timeIndex (invertedIndex s')) (createTime r1) (fileId r1)"
    using idx' by (intro in_exactly_one_if_agrees [OF _ _ known']) (simp_all add: index_ok_def)
  have q1: "r1 \<in> set (queryByExtensionIndexed s' (extension r1))"
    using known' by (auto simp: queryByExtensionIndexed_set [OF c'])
  have q2: "r1 \<in> set (queryByOwnerIndexed s' (owner r1))"
    using known' by (auto simp: queryByOwnerIndexed_set [OF c'])
  obtain n where n: "node_at ?pos (root s) = Some n"
    and old: "map_of (children n) fname = Some old"
    using assms(2) unfolding node_at_snoc by blast
  from assms(5) obtain root1 pos where
    g: "getOrCreatePath (root s) path = Some (root1, pos)" and
    rt': "root s' = modify_at pos (set_child fname ?leaf) root1"
    by (auto simp: addFile_True)
  have pos: "pos = ?pos" using getOrCreatePath_position [OF g] by simp
  have root1: "root1 = root s" using getOrCreatePath_existing [OF g] n pos by simp
  have rt: "root s' = modify_at ?pos (set_child fname ?leaf) (root s)"
    by (simp add: rt' pos root1)
  have "mset (tree_files ?leaf) \<subseteq># mset (tree_files (root s'))"
    unfolding rt by (rule tree_files_attach(2) [OF n])
  then have new_in: "?r \<in> set (tree_files (root s'))"
    using mset_subset_eqD [of "mset (tree_files ?leaf)" _ ?r] by simp
  have diff: "fileId x \<noteq> fileId r1" if "x \<in> set (tree_files (root s'))" for x
    using overwritten_not_in_tree [OF tr tab n old r1_old, of ?r x] that by (simp add: rt)
  then have out: "r1 \<notin> set (tree_files (root s'))" by blast
  have base: "fileId r1 \<notin> fileId ` set (queryByExtensionTraditional s' e)"
  proof
    assume "fileId r1 \<in> fileId ` set (queryByExtensionTraditional s' e)"
    then obtain x where "x \<in> set (tree_files (root s'))" "fileId x = fileId r1"
      by (auto simp: queryByExtensionTraditional_filter)
    then show False using diff by blast
  qed
  have all: "traverseAndFilter (root s') (\<lambda>file result. result @ [file]) []
               = tree_files (root s')"
    using fold_collect [of "\<lambda>file. True" "tree_files (root s')" "[]"]
    by (simp add: traverseAndFilter_fold)
  have trav_new: "?r \<in> set (traverseAndFilter (root s') (\<lambda>file result. result @ [file]) [])"
    and trav_old: "r1 \<notin> set (traverseAndFilter (root s') (\<lambda>file result. result @ [file]) [])"
    unfolding all using new_in out by blast+
  have "extension ?r = ext" by (simp add: new_FileMetadata_def)
  then have base_new: "?r \<in> set (queryByExtensionTraditional s' ext)"
    using new_in by (simp add: queryByExtensionTraditional_filter)
  have base_old: "r1 \<notin> set (queryByExtensionTraditional s' (extension r1))"
    using out by (simp add: queryByExtensionTraditional_filter)
  have q3: "lo \<le> fileSize r1 \<and> fileSize r1 \<le> hi \<longrightarrow>
        (\<exists>rs. queryBySizeRangeIndexed s' lo hi = Inr rs \<and> r1 \<in> set rs)"
    using added_record_in_range [OF c' known'] by blast
  show ?thesis
    by (intro conjI known' e1 e2 e3 e4 q1 q2 q3 new' ne total att(1) new_in out
        trav_new base_new trav_old base_old base)
qed

theorem overwrite_keeps_earlier_record_witness:
  "run new_FileSystemSimulator [AddFile ''/pics'' ''a.jpg'' ''.jpg'' 100 ''u1'' ''2024-01-15'']
     = Inr first_store \<and>
   node_at [''pics'', ''a.jpg''] (root first_store)
     = Some (DirectoryNode ''a.jpg'' False (Some first_a) []) \<and>
   addFile first_store ''/pics'' ''a.jpg'' ''.jpg'' 200 ''u1'' ''2024-01-16''
     = Inr (True, overwrite_store) \<and>
   map_of (fileMetadataMap overwrite_store) 1 = Some first_a \<and>
   in_exactly_one (extensionIndex (invertedIndex overwrite_store)) ''.jpg'' 1 \<and>
   in_exactly_one (sizeIndex (invertedIndex overwrite_store)) 100 1 \<and>
   in_exactly_one (ownerIndex (invertedIndex overwrite_store)) ''u1'' 1 \<and>
   in_exactly_one (timeIndex (invertedIndex overwrite_store)) ''2024-01-15'' 1 \<and>
   first_a \<in> set (queryByExtensionIndexed overwrite_store ''.jpg'') \<and>
   first_a \<in> set (queryByOwnerIndexed overwrite_store ''u1'') \<and>
   queryBySizeRangeIndexed overwrite_store 50 150 = Inr [first_a] \<and>
   map_of (fileMetadataMap overwrite_store) 2 = Some second_a \<and>
   getTotalFiles overwrite_store = 2 \<and>
   tree_files (root overwrite_store) = [second_a] \<and>
   first_a \<notin> set (tree_files (root overwrite_store)) \<and>
   traverseAndFilter (root overwrite_store) (\<lambda>file result. result @ [file]) [] = [second_a] \<and>
   queryByExtensionTraditional overwrite_store ''.jpg'' = [second_a] \<and>
   second_a \<in> set (queryByExtensionTraditional overwrite_store ''.jpg'') \<and>
   first_a \<notin> set (queryByExtensionTraditional overwrite_store ''.jpg'') \<and>
   1 \<notin> fileId ` set (queryByExtensionTraditional overwrite_store ''.jpg'')"
proof -
  have p: "path_position ''/pics'' = [''pics'']" by code_simp
  have h2: "node_at (path_position ''/pics'' @ [''a.jpg'']) (root first_store)
              = Some (DirectoryNode ''a.jpg'' False (Some first_a) [])"
    unfolding p by (simp add: first_store_def)
  have h3: "\<not> isDirectory (DirectoryNode ''a.jpg'' False (Some first_a) [])"
    and h4: "fileData (DirectoryNode ''a.jpg'' False (Some first_a) []) = Some first_a"
    by simp_all
  have a: "fileId first_a = 1" "extension first_a = ''.jpg''" "fileSize first_a = 100"
    "owner first_a = ''u1''" "createTime first_a = ''2024-01-15''"
    by (simp_all add: first_a_def)
  have nw: "new_FileMetadata first_store ''/pics'' ''a.jpg'' ''.jpg'' 200 ''u1'' ''2024-01-16''
              = second_a"
    by code_simp
  have nx: "nextFileId first_store = 2" and tot: "getTotalFiles first_store = 1"
    by (simp_all add: first_store_def getTotalFiles_def)
  have tf: "tree_files (root overwrite_store) = [second_a]"
    by (simp add: overwrite_store_def)
  from overwrite_keeps_earlier_record [OF run_first h2 h3 h4 add_second, where e = "''.jpg''" and lo = 50 and hi = 150]
  have concl:
    "map_of (fileMetadataMap overwrite_store) 1 = Some first_a"
    "in_exactly_one (extensionIndex (invertedIndex overwrite_store)) ''.jpg'' 1"
    "in_exactly_one (sizeIndex (invertedIndex overwrite_store)) 100 1"
    "in_exactly_one (ownerIndex (invertedIndex overwrite_store)) ''u1'' 1"
    "in_exactly_one (timeIndex (invertedIndex overwrite_store)) ''2024-01-15'' 1"
    "first_a \<in> set (queryByExtensionIndexed overwrite_store ''.jpg'')"
    "first_a \<in> set (queryByOwnerIndexed overwrite_store ''u1'')"
    "map_of (fileMetadataMap overwrite_store) 2 = Some second_a"
    "getTotalFiles overwrite_store = 2"
    "first_a \<notin> set (tree_files (root overwrite_store))"
    "second_a \<in> set (queryByExtensionTraditional overwrite_store ''.jpg'')"
    "first_a \<notin> set (queryByExtensionTraditional overwrite_store ''.jpg'')"
    "1 \<notin> fileId ` set (queryByExtensionTraditional overwrite_store ''.jpg'')"
    unfolding a nw nx tot by simp_all
  have h2': "node_at [''pics'', ''a.jpg''] (root first_store)
     = Some (DirectoryNode ''a.jpg'' False (Some first_a) [])"
    using h2 unfolding p by simp
  have rng: "queryBySizeRangeIndexed overwrite_store 50 150 = Inr [first_a]"
    by code_simp
  have trav: "traverseAndFilter (root overwrite_store) (\<lambda>file result. result @ [file]) []
                = [second_a]"
    by code_simp
  have base: "queryByExtensionTraditional overwrite_store ''.jpg'' = [second_a]"
    by code_simp
  show ?thesis
    by (intro conjI run_first h2' add_second concl tf rng trav base)
qed

section \<open>Further facts about the queries\<close>

text \<open>What the traversal finds, the index finds too: the tree holds no record that
  the flat table and the extension index do not hold.\<close>

lemma baseline_subset_indexed:
  assumes "run new_FileSystemSimulator ops = Inr s"
  shows "set (queryByExtensionTraditional s ext) \<subseteq> set (queryByExtensionIndexed s ext)"
proof
  fix r
  assume "r \<in> set (queryByExtensionTraditional s ext)"
  then have r: "r \<in> set (tree_files (root s))" "extension r = ext"
    by (simp_all add: queryByExtensionTraditional_filter)
  have c: "consistent s" by (rule consistent_reachable [OF assms])
  then have "map_of (fileMetadataMap s) (fileId r) = Some r"
    using r(1) by (simp add: consistent_def tree_ok_def)
  then show "r \<in> set (queryByExtensionIndexed s ext)"
    using r(2) by (auto simp: queryByExtensionIndexed_set [OF c])
qed

text \<open>The exact-match queries return the empty result for a key that the index does
  not hold, and the range query for bounds \<open>lo \<le> hi\<close> with no record in between.\<close>

lemma exact_queries_unknown_key:
  "map_of (extensionIndex idx) ext = None \<Longrightarrow> queryByExtension idx ext = []"
  "map_of (ownerIndex idx) own = None \<Longrightarrow> queryByOwner idx own = []"
  "map_of (timeIndex idx) t = None \<Longrightarrow> queryByTime idx t = []"
  by (simp_all add: queryByExtension_def queryByOwner_def queryByTime_def)

lemma indexed_queries_unknown_key:
  "map_of (extensionIndex (invertedIndex s)) ext = None \<Longrightarrow> queryByExtensionIndexed s ext = []"
  "map_of (ownerIndex (invertedIndex s)) own = None \<Longrightarrow> queryByOwnerIndexed s own = []"
  by (simp_all add: queryByExtensionIndexed_def queryByOwnerIndexed_def exact_queries_unknown_key
      lookup_ids_def)

lemma size_range_no_match:
  assumes "run new_FileSystemSimulator ops = Inr s" and "lo \<le> hi"
    and "records_in_range s lo hi = []"
  shows "queryBySizeRangeIndexed s lo hi = Inr []"
  using queryBySizeRange_sorted_ids [OF consistent_reachable [OF assms(1)] assms(2)] assms(3)
  by (simp add: queryBySizeRangeIndexed_def lookup_ids_def)

text \<open>In every state reached, each posting list that an index stores is strictly
  increasing.\<close>

lemma stored_postings_sorted:
  assumes "run new_FileSystemSimulator ops = Inr s"
  shows "map_of (extensionIndex (invertedIndex s)) k = Some l \<Longrightarrow> sorted_wrt (<) l"
    and "map_of (sizeIndex (invertedIndex s)) n = Some l \<Longrightarrow> sorted_wrt (<) l"
    and "map_of (ownerIndex (invertedIndex s)) k = Some l \<Longrightarrow> sorted_wrt (<) l"
    and "map_of (timeIndex (invertedIndex s)) k = Some l \<Longrightarrow> sorted_wrt (<) l"
proof -
  have idx: "index_ok (invertedIndex s) (fileMetadataMap s)"
    using consistent_reachable [OF assms] by (simp add: consistent_def)
  show "map_of (extensionIndex (invertedIndex s)) k = Some l \<Longrightarrow> sorted_wrt (<) l"
    using idx postings_okD [of "extensionIndex (invertedIndex s)" k l]
    by (simp add: index_ok_def)
  show "map_of (sizeIndex (invertedIndex s)) n = Some l \<Longrightarrow> sorted_wrt (<) l"
    using idx postings_okD [of "sizeIndex (invertedIndex s)" n l]
    by (simp add: index_ok_def size_index_ok_def)
  show "map_of (ownerIndex (invertedIndex s)) k = Some l \<Longrightarrow> sorted_wrt (<) l"
    using idx postings_okD [of "ownerIndex (invertedIndex s)" k l]
    by (simp add: index_ok_def)
  show "map_of (timeIndex (invertedIndex s)) k = Some l \<Longrightarrow> sorted_wrt (<) l"
    using idx postings_okD [of "timeIndex (invertedIndex s)" k l]
    by (simp add: index_ok_def)
qed

end
